theory Spec2Isabelle
  imports Complex_Main "HOL-Library.Sublist" "HOL-Library.AList" "HOL-Library.Multiset"
begin

section \<open>JavaScript values and strings\<close>

text \<open>
  A JavaScript string is modelled as a \<^typ>\<open>string\<close>, one \<^typ>\<open>char\<close> per UTF-16 code
  unit; every string of the program lies in the Latin-1 range, so one code unit fits one
  \<^typ>\<open>char\<close>. \<open>js_includes\<close> is \<open>String.prototype.includes\<close>: the argument occurs as a
  contiguous substring.
\<close>

fun js_includes :: "string \<Rightarrow> string \<Rightarrow> bool" where
  "js_includes [] sub = (sub = [])"
| "js_includes (c # cs) sub = (prefix sub (c # cs) \<or> js_includes cs sub)"

text \<open>
  A value caught by a \<open>catch\<close> clause is either an instance of \<open>Error\<close>, carrying its
  \<open>message\<close>, or some other value, carried as the text \<open>JSON.stringify\<close> gives for it.
\<close>

datatype thrown = JsError string | JsOther string

text \<open>\<open>error instanceof Error ? error.message : JSON.stringify(error)\<close>\<close>

fun errorMessage :: "thrown \<Rightarrow> string" where
  "errorMessage (JsError m) = m"
| "errorMessage (JsOther j) = j"

text \<open>
  What a property read on the object literal \<open>PROMPTS\<close> can yield: \<open>undefined\<close>, a string
  (an own property), or a member inherited from \<open>Object.prototype\<close> (a function, or the
  prototype object itself for \<open>__proto__\<close>), named here by its key.
\<close>

datatype js_value = Undefined | Str string | Inherited string

fun truthy :: "js_value \<Rightarrow> bool" where
  "truthy Undefined = False"
| "truthy (Str s) = (s \<noteq> [])"
| "truthy (Inherited k) = True"

section \<open>services/geminiService.ts\<close>

subsection \<open>The remote response\<close>

record blob =
  blob_mimeType :: "string option"
  blob_data :: "string option"

record part =
  inlineData :: "blob option"

record content =
  parts :: "part list option"

record candidate =
  candidate_content :: "content option"

text \<open>\<open>response_text\<close> is the \<open>text\<close> accessor of the SDK's response object.\<close>

record GenerateContentResponse =
  candidates :: "candidate list option"
  response_text :: "string option"

text \<open>A template literal prints a missing value as \<open>undefined\<close>.\<close>

fun interpolate :: "string option \<Rightarrow> string" where
  "interpolate None = ''undefined''"
| "interpolate (Some s) = s"

text \<open>\<open>response.candidates?.[0]?.content?.parts?.find(part => part.inlineData)\<close>\<close>

definition imagePartFromResponse :: "GenerateContentResponse \<Rightarrow> part option" where
  "imagePartFromResponse response =
     (case candidates response of
        None \<Rightarrow> None
      | Some cs \<Rightarrow>
          (case cs of
             [] \<Rightarrow> None
           | c # _ \<Rightarrow>
               (case candidate_content c of
                  None \<Rightarrow> None
                | Some ct \<Rightarrow>
                    (case parts ct of
                       None \<Rightarrow> None
                     | Some ps \<Rightarrow> find (\<lambda>p. inlineData p \<noteq> None) ps))))"

text \<open>\<open>textResponse || 'No text response received.'\<close>\<close>

fun textOrDefault :: "string option \<Rightarrow> string" where
  "textOrDefault None = ''No text response received.''"
| "textOrDefault (Some t) = (if t = [] then ''No text response received.'' else t)"

definition noImageMessage :: "string option \<Rightarrow> string" where
  "noImageMessage textResponse =
     ''The AI model responded with text instead of an image: \"'' @ textOrDefault textResponse @ ''\"''"

definition processGeminiResponse :: "GenerateContentResponse \<Rightarrow> thrown + string" where
  "processGeminiResponse response =
     (case imagePartFromResponse response of
        Some p \<Rightarrow>
          (case inlineData p of
             Some b \<Rightarrow> Inr (''data:'' @ interpolate (blob_mimeType b) @ '';base64,'' @ interpolate (blob_data b))
           | None \<Rightarrow> Inl (JsError (noImageMessage (response_text response))))
      | None \<Rightarrow> Inl (JsError (noImageMessage (response_text response))))"

text \<open>Every part of every candidate of a response, and a response without image payload.\<close>

definition allParts :: "GenerateContentResponse \<Rightarrow> part list" where
  "allParts response =
     concat (map (\<lambda>c. case candidate_content c of
                         None \<Rightarrow> []
                       | Some ct \<Rightarrow> (case parts ct of None \<Rightarrow> [] | Some ps \<Rightarrow> ps))
                 (case candidates response of None \<Rightarrow> [] | Some cs \<Rightarrow> cs))"

definition lacksImagePayload :: "GenerateContentResponse \<Rightarrow> bool" where
  "lacksImagePayload response = list_all (\<lambda>p. inlineData p = None) (allParts response)"

subsection \<open>The retry wrapper\<close>

text \<open>
  The remote call \<open>ai.models.generateContent\<close> is a parameter: \<open>generateContent k\<close>
  is what the \<open>k\<close>-th call of one wrapper invocation does, a rejection (\<open>Inl\<close>) or a
  response (\<open>Inr\<close>). Every call is taken to settle. The wrapper's observable steps are
  logged: each call of the remote, and each \<open>setTimeout\<close> wait with its delay in ms.
\<close>

datatype event = Attempt nat | Sleep nat

datatype exit_path =
    Returned GenerateContentResponse
  | Rethrown thrown
  | FellThrough

definition maxRetries :: nat where
  "maxRetries = 3"

definition initialDelay :: nat where
  "initialDelay = 1000"

definition isInternalError :: "thrown \<Rightarrow> bool" where
  "isInternalError err =
     (js_includes (errorMessage err) ''\"code\":500'' \<or> js_includes (errorMessage err) ''INTERNAL'')"

function retryLoop ::
  "(nat \<Rightarrow> thrown + GenerateContentResponse) \<Rightarrow> nat \<Rightarrow> exit_path \<times> event list" where
  "retryLoop generateContent attempt =
     (if attempt \<le> maxRetries then
        (case generateContent attempt of
           Inr response \<Rightarrow> (Returned response, [Attempt attempt])
         | Inl err \<Rightarrow>
             if isInternalError err \<and> attempt < maxRetries then
               (let delay = initialDelay * 2 ^ (attempt - 1);
                    (exit, evs) = retryLoop generateContent (attempt + 1)
                in (exit, Attempt attempt # Sleep delay # evs))
             else (Rethrown err, [Attempt attempt]))
      else (FellThrough, []))"
  by pat_completeness auto
termination
  by (relation "measure (\<lambda>(g, attempt). maxRetries + 1 - attempt)") auto

declare retryLoop.simps [simp del]

definition callGeminiWithRetry ::
  "(nat \<Rightarrow> thrown + GenerateContentResponse) \<Rightarrow> exit_path \<times> event list" where
  "callGeminiWithRetry generateContent = retryLoop generateContent 1"

text \<open>What the caller of the wrapper receives on each way out of it.\<close>

fun settled :: "exit_path \<Rightarrow> thrown + GenerateContentResponse" where
  "settled (Returned response) = Inr response"
| "settled (Rethrown err) = Inl err"
| "settled FellThrough = Inl (JsError ''Gemini API call failed after all retries.'')"

fun isAttempt :: "event \<Rightarrow> bool" where
  "isAttempt (Attempt k) = True"
| "isAttempt (Sleep d) = False"

definition attempts :: "event list \<Rightarrow> nat" where
  "attempts evs = length (filter isAttempt evs)"

definition delays :: "event list \<Rightarrow> nat list" where
  "delays evs = concat (map (\<lambda>e. case e of Attempt k \<Rightarrow> [] | Sleep d \<Rightarrow> [d]) evs)"

subsection \<open>The prompt table\<close>

definition PROMPTS :: "(string \<times> string) list" where
  "PROMPTS =
    [
     (''Kiez-K'' @ [CHR 0xF6] @ ''nig'',
      ''Reimagine the person in this photo as a powerful Hamburg pimp from the 1980s, '' @
      ''the \"Kiez-K'' @
      [CHR 0xF6] @
      ''nig\". The image should be a photorealistic portrait. They are wearing a '' @
      ''black leather jacket over an open-collared shirt, heavy gold chains, and have '' @
      ''a confident, intimidating expression. The background is a dimly lit, smoky '' @
      ''bar on the Reeperbahn. The aesthetic must feel like a gritty 1980s film '' @
      ''photograph.''),
     (''Luden-Larry'',
      ''Reimagine the person in this photo as a flashy Hamburg pimp from the 1980s, '' @
      ''\"Luden-Larry\". They are wearing a garish, brightly colored silk shirt, a '' @
      ''white blazer, and gold-rimmed aviator sunglasses. They are leaning against a '' @
      ''classic 80s sports car. The background is filled with the bright neon signs '' @
      ''of the Reeperbahn at night. The style should be vibrant and slightly '' @
      ''over-saturated, like a high-flash 80s photo.''),
     (''Gold-Zahn G'' @ [CHR 0xFC] @ ''nther'',
      ''Reimagine the person in this photo as a tough, street-level Hamburg pimp from '' @
      ''the 1980s, \"Gold-Zahn G'' @
      [CHR 0xFC] @
      ''nther\". They have a mullet hairstyle and a prominent gold tooth. They are '' @
      ''wearing a cheap-looking tracksuit and a scowl. The photo must have a raw, '' @
      ''candid feel, as if taken on a gritty side street off the Reeperbahn. The '' @
      ''lighting is harsh and the colors are slightly faded.''),
     (''Disco Dieter'',
      ''Reimagine the person in this photo as a stylish Hamburg pimp from the 1980s, '' @
      ''\"Disco Dieter\". They are inside a pulsating 80s disco, with a disco ball '' @
      ''and colorful lights in the background. They are wearing a shiny shirt, tight '' @
      ''pants, and have perfectly coiffed hair. They are holding a cocktail and have '' @
      ''a suave look. The image must capture the dynamic, colorful atmosphere of an '' @
      ''80s nightclub.''),
     (''Porsche-Paul'',
      ''Reimagine the person in this photo as a wealthy Hamburg pimp from the 1980s, '' @
      ''\"Porsche-Paul\". They are standing proudly next to a white Porsche 911. They '' @
      ''are wearing an expensive suit with the jacket open, revealing a flamboyant '' @
      ''shirt. Their expression is one of smug success. The scene is set on a Hamburg '' @
      ''street at dusk, with the car's headlights on. The photo style should be sharp '' @
      ''and glossy, like from a car magazine of the era.'')
    ]"

text \<open>
  \<open>PROMPTS\<close> is an object literal, so a property read that finds no own property goes on
  to \<open>Object.prototype\<close>. These are its keys.
\<close>

definition objectPrototypeKeys :: "string list" where
  "objectPrototypeKeys =
    [''constructor'', ''__defineGetter__'', ''__defineSetter__'', ''hasOwnProperty'',
     ''__lookupGetter__'', ''__lookupSetter__'', ''isPrototypeOf'', ''propertyIsEnumerable'',
     ''toString'', ''valueOf'', ''__proto__'', ''toLocaleString'']"

text \<open>\<open>PROMPTS[pimpName]\<close>\<close>

definition PROMPTS_get :: "string \<Rightarrow> js_value" where
  "PROMPTS_get pimpName =
     (case map_of PROMPTS pimpName of
        Some prompt \<Rightarrow> Str prompt
      | None \<Rightarrow> if List.member objectPrototypeKeys pimpName then Inherited pimpName else Undefined)"

subsection \<open>The data URL pattern\<close>

text \<open>
  \<open>/^data:(image\/\w+);base64,(.*)$/\<close>, without flags: \<open>\w\<close> is an ASCII letter, a digit
  or the underscore, \<open>.\<close> is any character but a line terminator, and \<open>$\<close> is the end of
  the input. The character after the \<open>\w+\<close> group must be \<open>;\<close>, which is no word
  character, so the group is the longest run of word characters.
\<close>

definition isWordChar :: "char \<Rightarrow> bool" where
  "isWordChar c =
     List.member ''abcdefghijklmnopqrstuvwxyzABCDEFGHIJKLMNOPQRSTUVWXYZ0123456789_'' c"

definition isLineTerminator :: "char \<Rightarrow> bool" where
  "isLineTerminator c = (c = CHR 0x0A \<or> c = CHR 0x0D)"

fun stripPrefix :: "string \<Rightarrow> string \<Rightarrow> string option" where
  "stripPrefix [] s = Some s"
| "stripPrefix (p # ps) [] = None"
| "stripPrefix (p # ps) (c # cs) = (if p = c then stripPrefix ps cs else None)"

definition matchDataUrl :: "string \<Rightarrow> (string \<times> string) option" where
  "matchDataUrl imageDataUrl =
     (case stripPrefix ''data:image/'' imageDataUrl of
        None \<Rightarrow> None
      | Some r \<Rightarrow>
          (let w = takeWhile isWordChar r in
           if w = [] then None
           else
             (case stripPrefix '';base64,'' (dropWhile isWordChar r) of
                None \<Rightarrow> None
              | Some d \<Rightarrow>
                  if list_ex isLineTerminator d then None else Some (''image/'' @ w, d))))"

subsection \<open>generatePimpImage\<close>

text \<open>The request handed to the remote call: the image part and the text part.\<close>

record request =
  request_mimeType :: string
  request_data :: string
  request_text :: js_value

definition wrapFailure :: "thrown \<Rightarrow> thrown" where
  "wrapFailure err =
     JsError (''The AI model failed to generate an image. Details: '' @ errorMessage err)"

definition invalidDataUrl :: thrown where
  "invalidDataUrl =
     JsError (''Invalid image data URL format. Expected '' @ [CHR 0x27] @
              ''data:image/...;base64,...'' @ [CHR 0x27])"

text \<open>
  The result is what the returned promise settles to (\<open>Inl\<close> a rejection), with the
  log of remote calls and waits made on the way.
\<close>

definition generatePimpImage ::
  "(request \<Rightarrow> nat \<Rightarrow> thrown + GenerateContentResponse) \<Rightarrow> string \<Rightarrow> string
     \<Rightarrow> (thrown + string) \<times> event list" where
  "generatePimpImage generateContent imageDataUrl pimpName =
     (case matchDataUrl imageDataUrl of
        None \<Rightarrow> (Inl invalidDataUrl, [])
      | Some (mimeType, base64Data) \<Rightarrow>
          (let prompt = PROMPTS_get pimpName in
           if \<not> truthy prompt then
             (Inl (JsError (''No prompt found for archetype: '' @ pimpName)), [])
           else
             (let imagePart_textPart =
                    \<lparr>request_mimeType = mimeType, request_data = base64Data,
                     request_text = prompt\<rparr>;
                  (exit, evs) = callGeminiWithRetry (generateContent imagePart_textPart)
              in case settled exit of
                   Inl err \<Rightarrow> (Inl (wrapFailure err), evs)
                 | Inr response \<Rightarrow>
                     (case processGeminiResponse response of
                        Inl err \<Rightarrow> (Inl (wrapFailure err), evs)
                      | Inr resultUrl \<Rightarrow> (Inr resultUrl, evs)))))"

section \<open>lib/albumUtils.ts\<close>

text \<open>
  Canvas coordinates are JavaScript numbers; they are modelled as reals. The page is
  modelled by what the claims are about: for every photo its card rectangle (top-left
  corner before rotation, rotation angle about the card's centre), the fitted picture
  and the caption; background, title, shadows and tape are left out.
\<close>

record HTMLImageElement =
  naturalWidth :: real
  naturalHeight :: real

definition canvasWidth :: real where
  "canvasWidth = 2480"

definition canvasHeight :: real where
  "canvasHeight = 3508"

definition grid_cols :: nat where
  "grid_cols = 2"

definition grid_rows :: nat where
  "grid_rows = 3"

definition grid_padding :: real where
  "grid_padding = 100"

definition contentTopMargin :: real where
  "contentTopMargin = 550"

definition contentHeight :: real where
  "contentHeight = canvasHeight - contentTopMargin"

definition cellWidth :: real where
  "cellWidth = (canvasWidth - grid_padding * (real grid_cols + 1)) / real grid_cols"

definition cellHeight :: real where
  "cellHeight = (contentHeight - grid_padding * (real grid_rows + 1)) / real grid_rows"

definition photoWidth :: real where
  "photoWidth = cellWidth * 0.9"

definition photoHeight :: real where
  "photoHeight = photoWidth * 1.25"

definition inset :: real where
  "inset = 35"

definition imageContainerWidth :: real where
  "imageContainerWidth = photoWidth - inset * 2"

definition imageContainerHeight :: real where
  "imageContainerHeight = photoHeight - inset * 2 - 100"

record photo =
  figure :: string
  photo_x :: real
  photo_y :: real
  rotation :: real
  imgX :: real
  imgY :: real
  drawWidth :: real
  drawHeight :: real
  captionY :: real

text \<open>
  The body of the \<open>forEach\<close> callback; \<open>r\<close> is the value \<open>Math.random()\<close> returns for
  this photo's rotation. The picture fit divides by \<open>naturalHeight\<close>, which is positive
  for a loaded image.
\<close>

definition drawPhoto :: "nat \<Rightarrow> string \<Rightarrow> HTMLImageElement \<Rightarrow> real \<Rightarrow> photo" where
  "drawPhoto index fig img r =
     (let row = index div grid_cols;
          col = index mod grid_cols;
          x = grid_padding * (real col + 1) + cellWidth * real col + (cellWidth - photoWidth) / 2;
          y = contentTopMargin + grid_padding * (real row + 1) + cellHeight * real row;
          aspectRatio = naturalWidth img / naturalHeight img;
          fitsWidth = \<not> (imageContainerWidth / aspectRatio > imageContainerHeight);
          dh = (if fitsWidth then imageContainerWidth / aspectRatio else imageContainerHeight);
          dw = (if fitsWidth then imageContainerWidth else imageContainerHeight * aspectRatio)
      in \<lparr>figure = fig, photo_x = x, photo_y = y, rotation = (r - 0.5) * 0.15,
          imgX = - dw / 2,
          imgY = - photoHeight / 2 + inset + (imageContainerHeight - dh) / 2,
          drawWidth = dw, drawHeight = dh,
          captionY = photoHeight / 2 - 60\<rparr>)"

text \<open>\<open>Promise.all\<close> over the loads: one rejection rejects the whole.\<close>

fun loadAll ::
  "(string \<Rightarrow> thrown + HTMLImageElement) \<Rightarrow> string list \<Rightarrow> thrown + HTMLImageElement list" where
  "loadAll loadImage [] = Inr []"
| "loadAll loadImage (src # srcs) =
     (case loadImage src of
        Inl err \<Rightarrow> Inl err
      | Inr img \<Rightarrow>
          (case loadAll loadImage srcs of
             Inl err \<Rightarrow> Inl err
           | Inr imgs \<Rightarrow> Inr (img # imgs)))"

text \<open>
  \<open>imageData\<close> is the record in the iteration order of its keys; \<open>ctx\<close> tells whether
  \<open>canvas.getContext('2d')\<close> gave a context; \<open>random index\<close> is the draw for the photo
  at \<open>index\<close>. The result is the list of photos in drawing order.
\<close>

definition createLookbookPage ::
  "bool \<Rightarrow> (string \<Rightarrow> thrown + HTMLImageElement) \<Rightarrow> (nat \<Rightarrow> real) \<Rightarrow> (string \<times> string) list
     \<Rightarrow> thrown + photo list" where
  "createLookbookPage ctx loadImage random imageData =
     (if \<not> ctx then Inl (JsError ''Could not get 2D canvas context'')
      else
        (case loadAll loadImage (map snd imageData) of
           Inl err \<Rightarrow> Inl err
         | Inr loadedImages \<Rightarrow>
             Inr (map (\<lambda>(index, fig, img). drawPhoto index fig img (random index))
                    (enumerate 0 (zip (map fst imageData) loadedImages)))))"

text \<open>
  A point of the canvas lies on a photo's card: \<open>translate\<close> to the card's centre and
  \<open>rotate\<close> map the card's own coordinates \<open>(lx, ly)\<close> to the canvas, so the point is
  taken back by the inverse rotation and compared with the rectangle \<open>fillRect\<close> paints.
\<close>

definition covers :: "photo \<Rightarrow> real \<times> real \<Rightarrow> bool" where
  "covers p pt =
     (let dx = fst pt - (photo_x p + photoWidth / 2);
          dy = snd pt - (photo_y p + photoHeight / 2);
          lx = dx * cos (rotation p) + dy * sin (rotation p);
          ly = dy * cos (rotation p) - dx * sin (rotation p)
      in \<bar>lx\<bar> \<le> photoWidth / 2 \<and> \<bar>ly\<bar> \<le> photoHeight / 2)"

definition overlapping :: "photo \<Rightarrow> photo \<Rightarrow> bool" where
  "overlapping p q = (\<exists>pt. covers p pt \<and> covers q pt)"

section \<open>App.tsx\<close>

definition PIMP_ARCHETYPES :: "string list" where
  "PIMP_ARCHETYPES =
     [''Kiez-K'' @ [CHR 0xF6] @ ''nig'', ''Luden-Larry'', ''Gold-Zahn G'' @ [CHR 0xFC] @ ''nther'',
      ''Disco Dieter'', ''Porsche-Paul'']"

datatype ImageStatus = Pending | Done | Error

record GeneratedImage =
  status :: ImageStatus
  url :: "string option"
  error :: "string option"

text \<open>
  \<open>Record<string, GeneratedImage>\<close> in the iteration order of its keys. The spread
  \<open>{...prev, [pimp]: v}\<close> overwrites an existing key in place and appends a new one, which
  is \<^const>\<open>AList.update\<close>.
\<close>

type_synonym images = "(string \<times> GeneratedImage) list"

definition pendingImage :: GeneratedImage where
  "pendingImage = \<lparr>status = Pending, url = None, error = None\<rparr>"

definition doneImage :: "string \<Rightarrow> GeneratedImage" where
  "doneImage resultUrl = \<lparr>status = Done, url = Some resultUrl, error = None\<rparr>"

definition errorImage :: "string \<Rightarrow> GeneratedImage" where
  "errorImage msg = \<lparr>status = Error, url = None, error = Some msg\<rparr>"

definition statusOf :: "images \<Rightarrow> string \<Rightarrow> ImageStatus option" where
  "statusOf imgs pimp = map_option status (map_of imgs pimp)"

subsection \<open>handleGenerateClick\<close>

definition initialImages :: images where
  "initialImages = fold (\<lambda>pimp acc. AList.update pimp pendingImage acc) PIMP_ARCHETYPES []"

definition concurrencyLimit :: nat where
  "concurrencyLimit = 2"

text \<open>
  The part of \<open>processPimp\<close> after its \<open>await\<close>: \<open>settledWith\<close> is what the promise of
  \<open>generatePimpImage\<close> settled to. The result is \<open>Inl\<close> if \<open>processPimp\<close> itself throws.
\<close>

definition processPimp :: "string \<Rightarrow> thrown + string \<Rightarrow> images \<Rightarrow> thrown + images" where
  "processPimp pimp settledWith prev =
     (case settledWith of
        Inr resultUrl \<Rightarrow> Inr (AList.update pimp (doneImage resultUrl) prev)
      | Inl err \<Rightarrow>
          (let msg = (case err of JsError m \<Rightarrow> m | JsOther j \<Rightarrow> ''An unknown error occurred.'')
           in Inr (AList.update pimp (errorImage msg) prev)))"

text \<open>
  JavaScript runs each piece of code between two \<open>await\<close>s without interruption, so a run
  is a sequence of such pieces, in any order the event loop may choose. A worker is at the
  head of its \<open>while\<close> loop, or awaits \<open>processPimp\<close> for a name, or has left the loop, or
  has thrown. \<open>dispatched\<close> logs the names passed to \<open>processPimp\<close>, \<open>outcomes\<close> what
  each call settled to.
\<close>

datatype worker = AtLoopHead | Awaiting string | Finished | Rejected thrown

record run_state =
  pimpQueue :: "string list"
  workers :: "worker list"
  generatedImages :: images
  dispatched :: "string list"
  outcomes :: "(string \<times> (thrown + string)) list"

definition initialRun :: run_state where
  "initialRun =
     \<lparr>pimpQueue = PIMP_ARCHETYPES, workers = replicate concurrencyLimit AtLoopHead,
      generatedImages = initialImages, dispatched = [], outcomes = []\<rparr>"

text \<open>\<open>if (!uploadedImage) return;\<close> comes first: without a photo there is no run.\<close>

definition handleGenerateClick :: "string option \<Rightarrow> run_state option" where
  "handleGenerateClick uploadedImage =
     (case uploadedImage of
        None \<Rightarrow> None
      | Some img \<Rightarrow> if img = [] then None else Some initialRun)"

datatype run_event = Loop nat | Settle nat "thrown + string"

text \<open>
  \<open>Loop w\<close>: worker \<open>w\<close> tests \<open>pimpQueue.length > 0\<close>, and either leaves the loop or
  shifts a name and, if the name is truthy, calls \<open>processPimp\<close>. \<open>Settle w r\<close>: the call
  worker \<open>w\<close> awaits settles with \<open>r\<close>. An event that cannot happen in a state gives
  \<open>None\<close>.
\<close>

fun run_step :: "run_event \<Rightarrow> run_state \<Rightarrow> run_state option" where
  "run_step (Loop w) s =
     (if w < length (workers s) \<and> workers s ! w = AtLoopHead then
        (case pimpQueue s of
           [] \<Rightarrow> Some (s\<lparr>workers := (workers s)[w := Finished]\<rparr>)
         | pimp # rest \<Rightarrow>
             if pimp \<noteq> [] then
               Some (s\<lparr>pimpQueue := rest, workers := (workers s)[w := Awaiting pimp],
                       dispatched := dispatched s @ [pimp]\<rparr>)
             else Some (s\<lparr>pimpQueue := rest\<rparr>))
      else None)"
| "run_step (Settle w settledWith) s =
     (if w < length (workers s) then
        (case workers s ! w of
           Awaiting pimp \<Rightarrow>
             (case processPimp pimp settledWith (generatedImages s) of
                Inr next \<Rightarrow>
                  Some (s\<lparr>generatedImages := next, workers := (workers s)[w := AtLoopHead],
                          outcomes := outcomes s @ [(pimp, settledWith)]\<rparr>)
              | Inl err \<Rightarrow> Some (s\<lparr>workers := (workers s)[w := Rejected err]\<rparr>))
         | _ \<Rightarrow> None)
      else None)"

text \<open>\<open>await Promise.all(workers)\<close> resolves when every worker has left its loop.\<close>

definition run_complete :: "run_state \<Rightarrow> bool" where
  "run_complete s = list_all (\<lambda>w. w = Finished) (workers s)"

fun isRejected :: "worker \<Rightarrow> bool" where
  "isRejected (Rejected err) = True"
| "isRejected w = False"

definition run_threw :: "run_state \<Rightarrow> bool" where
  "run_threw s = list_ex isRejected (workers s)"

text \<open>The names some worker is processing at the moment.\<close>

fun awaited :: "worker list \<Rightarrow> string list" where
  "awaited [] = []"
| "awaited (Awaiting pimp # ws) = pimp # awaited ws"
| "awaited (w # ws) = awaited ws"

definition isTerminal :: "ImageStatus option \<Rightarrow> bool" where
  "isTerminal st = (st = Some Done \<or> st = Some Error)"

text \<open>The entry \<open>processPimp\<close> writes for a settled call.\<close>

fun entryFor :: "thrown + string \<Rightarrow> GeneratedImage" where
  "entryFor (Inr resultUrl) = doneImage resultUrl"
| "entryFor (Inl (JsError m)) = errorImage m"
| "entryFor (Inl (JsOther j)) = errorImage ''An unknown error occurred.''"

subsection \<open>handleRegeneratePimp\<close>

text \<open>
  The application from the start of a run by \<open>handleGenerateClick\<close>. \<open>run\<close> is the
  run's state, with the current \<open>generatedImages\<close>. \<open>rendered\<close> is the value of
  \<open>generatedImages\<close> in the latest render: \<open>handleRegeneratePimp\<close> is a closure made by
  that render, so the \<open>generatedImages\<close> its guard reads is this value, while its
  \<open>setGeneratedImages(prev => ...)\<close> updates the current one. \<open>regenerating\<close> are
  the names whose regeneration call is awaited, \<open>overwritten\<close> logs the names whose
  entry a regeneration has written.

  \<open>Render\<close> is a render of the component. \<open>Regenerate pimp\<close> is a call of
  \<open>handleRegeneratePimp\<close> up to its \<open>await\<close>; \<open>RegenerateSettle pimp r\<close> is the rest
  of it, when the awaited call settles with \<open>r\<close>.
\<close>

record app_state =
  run :: run_state
  rendered :: images
  regenerating :: "string list"
  overwritten :: "string list"

datatype app_event =
    RunEvent run_event
  | Render
  | Regenerate string
  | RegenerateSettle string "thrown + string"

definition handleRegeneratePimp :: "string \<Rightarrow> app_state \<Rightarrow> app_state" where
  "handleRegeneratePimp pimp s =
     (if statusOf (rendered s) pimp = Some Pending then s
      else
        s\<lparr>run := (run s)\<lparr>generatedImages :=
                            AList.update pimp pendingImage (generatedImages (run s))\<rparr>,
          regenerating := regenerating s @ [pimp],
          overwritten := overwritten s @ [pimp]\<rparr>)"

definition regenerateSettled :: "string \<Rightarrow> thrown + string \<Rightarrow> app_state \<Rightarrow> app_state" where
  "regenerateSettled pimp settledWith s =
     s\<lparr>run := (run s)\<lparr>generatedImages :=
                         AList.update pimp (entryFor settledWith) (generatedImages (run s))\<rparr>,
       regenerating := remove1 pimp (regenerating s),
       overwritten := overwritten s @ [pimp]\<rparr>"

fun app_step :: "app_event \<Rightarrow> app_state \<Rightarrow> app_state option" where
  "app_step (RunEvent e) s =
     (case run_step e (run s) of None \<Rightarrow> None | Some r \<Rightarrow> Some (s\<lparr>run := r\<rparr>))"
| "app_step Render s = Some (s\<lparr>rendered := generatedImages (run s)\<rparr>)"
| "app_step (Regenerate pimp) s = Some (handleRegeneratePimp pimp s)"
| "app_step (RegenerateSettle pimp settledWith) s =
     (if List.member (regenerating s) pimp then Some (regenerateSettled pimp settledWith s)
      else None)"

fun app_exec :: "app_event list \<Rightarrow> app_state \<Rightarrow> app_state option" where
  "app_exec [] s = Some s"
| "app_exec (e # es) s = (case app_step e s of None \<Rightarrow> None | Some s' \<Rightarrow> app_exec es s')"

text \<open>
  The cards, and with them \<open>handleRegeneratePimp\<close>, first appear in the render that
  follows \<open>setGeneratedImages(initialImages)\<close>. \<open>handleReset\<close> and
  \<open>handleGenerateClick\<close> replace \<open>generatedImages\<close> but cancel nothing: \<open>stale\<close> are
  the regeneration calls of an earlier use of the application that have not settled when
  the run starts.
\<close>

definition initialApp :: "string list \<Rightarrow> app_state" where
  "initialApp stale =
     \<lparr>run = initialRun, rendered = initialImages, regenerating = stale, overwritten = []\<rparr>"

text \<open>All calls of \<open>generatePimpImage\<close> in flight: the workers' and the regenerations'.\<close>

definition inFlight :: "app_state \<Rightarrow> string list" where
  "inFlight s = awaited (workers (run s)) @ regenerating s"

subsection \<open>handleDownloadLookbook\<close>

datatype download = AlertWait | Downloaded "photo list" | AlertSorry thrown

text \<open>
  The \<open>filter\<close> and \<open>reduce\<close> over \<open>Object.entries(generatedImages)\<close>: the entries with
  status \<open>'done'\<close> and a truthy \<open>url\<close>, in order.
\<close>

definition imageDataOf :: "images \<Rightarrow> (string \<times> string) list" where
  "imageDataOf imgs =
     concat (map (\<lambda>(pimp, image).
                    case url image of
                      None \<Rightarrow> []
                    | Some u \<Rightarrow> if status image = Done \<and> u \<noteq> [] then [(pimp, u)] else [])
                 imgs)"

definition handleDownloadLookbook ::
  "bool \<Rightarrow> (string \<Rightarrow> thrown + HTMLImageElement) \<Rightarrow> (nat \<Rightarrow> real) \<Rightarrow> images \<Rightarrow> download" where
  "handleDownloadLookbook ctx loadImage random imgs =
     (let imageData = imageDataOf imgs in
      if length imageData < length PIMP_ARCHETYPES then AlertWait
      else
        (case createLookbookPage ctx loadImage random imageData of
           Inl err \<Rightarrow> AlertSorry err
         | Inr lookbook \<Rightarrow> Downloaded lookbook))"

subsection \<open>What every state of a run satisfies\<close>

text \<open>
  There are \<open>concurrencyLimit\<close> workers; the names dispatched so far and the queue make
  up the list of archetypes; the dispatched names are those whose call has settled and
  those awaited by a worker; no worker has thrown; and a worker leaves its loop only when
  the queue is empty.
\<close>

definition run_inv :: "run_state \<Rightarrow> bool" where
  "run_inv s =
     (length (workers s) = concurrencyLimit
      \<and> dispatched s @ pimpQueue s = PIMP_ARCHETYPES
      \<and> mset (map fst (outcomes s)) + mset (awaited (workers s)) = mset (dispatched s)
      \<and> \<not> run_threw s
      \<and> (Finished \<in> set (workers s) \<longrightarrow> pimpQueue s = []))"

text \<open>
  A bound on the steps a run can still take: two for every queued name (pick-up and
  settlement), one for every awaited call, one for every worker still in its loop.
\<close>

definition remaining :: "run_state \<Rightarrow> nat" where
  "remaining s =
     2 * length (pimpQueue s) + length (awaited (workers s))
     + length (filter (\<lambda>w. w \<noteq> Finished) (workers s))"

subsection \<open>What every state of the application satisfies\<close>

text \<open>
  The run's state is as above; the entry of a name whose call has settled is the one
  \<open>processPimp\<close> wrote, unless a regeneration has written to it; and an archetype that
  is neither queued nor in flight has status \<open>'done'\<close> or \<open>'error'\<close>.
\<close>

definition app_inv :: "app_state \<Rightarrow> bool" where
  "app_inv s =
     (run_inv (run s)
      \<and> (\<forall>(pimp, r) \<in> set (outcomes (run s)).
            List.member (overwritten s) pimp
            \<or> map_of (generatedImages (run s)) pimp = Some (entryFor r))
      \<and> (\<forall>pimp \<in> set PIMP_ARCHETYPES.
            List.member (pimpQueue (run s) @ inFlight s) pimp
            \<or> isTerminal (statusOf (generatedImages (run s)) pimp)))"

text \<open>
  The cards are rendered from \<open>PIMP_ARCHETYPES\<close>, each with its name as caption, and a
  card asks for the regeneration of its own caption.
\<close>

fun fromCard :: "app_event \<Rightarrow> bool" where
  "fromCard (Regenerate pimp) = List.member PIMP_ARCHETYPES pimp"
| "fromCard (RegenerateSettle pimp settledWith) = True"
| "fromCard Render = True"
| "fromCard (RunEvent e) = True"

text \<open>
  The keys of \<open>generatedImages\<close> are the archetypes, in their order, and every queued or
  in-flight name is one of them.
\<close>

definition keys_inv :: "app_state \<Rightarrow> bool" where
  "keys_inv s =
     (map fst (generatedImages (run s)) = PIMP_ARCHETYPES
      \<and> set (pimpQueue (run s) @ inFlight s) \<subseteq> set PIMP_ARCHETYPES)"

subsection \<open>Example sessions\<close>

text \<open>
  A whole run in which the second call fails and, after a render, the card of the failed
  item is shaken while the run goes on.
\<close>

definition regeneratedWhileRunning :: "app_event list" where
  "regeneratedWhileRunning =
     [RunEvent (Loop 0), RunEvent (Loop 1),
      RunEvent (Settle 1 (Inl (JsError ''The AI model failed to generate an image. Details: blocked''))),
      Render, Regenerate ''Luden-Larry'',
      RunEvent (Loop 1), RunEvent (Settle 0 (Inr ''data:image/png;base64,AA'')),
      RunEvent (Loop 0), RunEvent (Settle 1 (Inr ''data:image/png;base64,BB'')),
      RunEvent (Loop 1), RunEvent (Settle 0 (Inr ''data:image/png;base64,CC'')),
      RunEvent (Loop 0), RunEvent (Settle 1 (Inr ''data:image/png;base64,DD'')),
      RunEvent (Loop 1)]"


text \<open>Both workers busy, and the card of the finished item shaken.\<close>

definition threeCallsAtOnce :: "app_event list" where
  "threeCallsAtOnce =
     [RunEvent (Loop 0), RunEvent (Loop 1),
      RunEvent (Settle 0 (Inr ''data:image/png;base64,AA'')), RunEvent (Loop 0), Render,
      Regenerate (''Kiez-K'' @ [CHR 0xF6] @ ''nig'')]"


section \<open>Properties of the retry wrapper\<close>

lemma retryLoop_return:
  "attempt \<le> maxRetries \<Longrightarrow> g attempt = Inr r \<Longrightarrow>
   retryLoop g attempt = (Returned r, [Attempt attempt])"
  by (subst retryLoop.simps) simp

lemma retryLoop_rethrow:
  "attempt \<le> maxRetries \<Longrightarrow> g attempt = Inl e \<Longrightarrow> \<not> (isInternalError e \<and> attempt < maxRetries) \<Longrightarrow>
   retryLoop g attempt = (Rethrown e, [Attempt attempt])"
  by (subst retryLoop.simps) auto

lemma retryLoop_retry:
  "attempt < maxRetries \<Longrightarrow> g attempt = Inl e \<Longrightarrow> isInternalError e \<Longrightarrow>
   retryLoop g attempt =
     (fst (retryLoop g (attempt + 1)),
      Attempt attempt # Sleep (initialDelay * 2 ^ (attempt - 1)) # snd (retryLoop g (attempt + 1)))"
  by (subst retryLoop.simps) (simp add: split_beta)

text \<open>
  Claim C2. When every attempt of the remote call fails with a failure that
  \<open>isInternalError\<close> classifies as transient, the wrapper calls the remote exactly three
  times, waits 1000 ms after the first failure and 2000 ms after the second (the delay is
  \<open>initialDelay * 2 ^ (attempt - 1)\<close>, nothing random in it), and rejects with the failure
  of the third call.
\<close>

theorem transient_failures_exhaust_retries:
  assumes fails: "\<And>k. generateContent k = Inl (failure k)"
    and transient: "\<And>k. isInternalError (failure k)"
  shows "callGeminiWithRetry generateContent =
           (Rethrown (failure 3), [Attempt 1, Sleep 1000, Attempt 2, Sleep 2000, Attempt 3])
         \<and> attempts (snd (callGeminiWithRetry generateContent)) = 3
         \<and> delays (snd (callGeminiWithRetry generateContent)) =
             [initialDelay * 2 ^ (1 - 1), initialDelay * 2 ^ (2 - 1)]
         \<and> settled (fst (callGeminiWithRetry generateContent)) = Inl (failure 3)"
proof -
  have third: "retryLoop generateContent 3 = (Rethrown (failure 3), [Attempt 3])"
    by (rule retryLoop_rethrow[where e = "failure 3"]) (simp_all add: maxRetries_def fails)
  have second:
    "retryLoop generateContent 2 = (Rethrown (failure 3), [Attempt 2, Sleep 2000, Attempt 3])"
    using retryLoop_retry[of 2 generateContent "failure 2"] fails transient
    by (simp add: maxRetries_def initialDelay_def third)
  have first:
    "retryLoop generateContent 1 =
       (fst (retryLoop generateContent 2), Attempt 1 # Sleep 1000 # snd (retryLoop generateContent 2))"
    using retryLoop_retry[of 1 generateContent "failure 1"] fails transient
    by (simp add: maxRetries_def initialDelay_def numeral_2_eq_2)
  have run:
    "callGeminiWithRetry generateContent =
       (Rethrown (failure 3), [Attempt 1, Sleep 1000, Attempt 2, Sleep 2000, Attempt 3])"
    unfolding callGeminiWithRetry_def first second by simp
  show ?thesis
    by (simp add: run attempts_def delays_def initialDelay_def)
qed

lemma internal_marker: "isInternalError (JsError ''INTERNAL'')"
  by (simp add: isInternalError_def)

theorem transient_failures_exhaust_retries_witness:
  "callGeminiWithRetry (\<lambda>k. Inl (JsError ''INTERNAL'')) =
     (Rethrown (JsError ''INTERNAL''), [Attempt 1, Sleep 1000, Attempt 2, Sleep 2000, Attempt 3])"
  using transient_failures_exhaust_retries
          [of "\<lambda>k. Inl (JsError ''INTERNAL'')" "\<lambda>k. JsError ''INTERNAL''"]
  by (simp add: internal_marker)

text \<open>
  Claim C3. When the first attempt fails with a failure that \<open>isInternalError\<close> does
  not classify as transient, the wrapper has called the remote exactly once, has waited
  for no delay, and rejects with that very failure.
\<close>

theorem permanent_failure_not_retried:
  assumes "generateContent 1 = Inl err" and "\<not> isInternalError err"
  shows "callGeminiWithRetry generateContent = (Rethrown err, [Attempt 1])
         \<and> attempts (snd (callGeminiWithRetry generateContent)) = 1
         \<and> delays (snd (callGeminiWithRetry generateContent)) = []
         \<and> settled (fst (callGeminiWithRetry generateContent)) = Inl err"
proof -
  have "retryLoop generateContent 1 = (Rethrown err, [Attempt 1])"
    using assms by (intro retryLoop_rethrow) (simp_all add: maxRetries_def)
  then show ?thesis
    by (simp add: callGeminiWithRetry_def attempts_def delays_def)
qed

theorem permanent_failure_not_retried_witness:
  "callGeminiWithRetry (\<lambda>k. Inl (JsError ''API key not valid'')) =
     (Rethrown (JsError ''API key not valid''), [Attempt 1])"
  using permanent_failure_not_retried
          [of "\<lambda>k. Inl (JsError ''API key not valid'')" "JsError ''API key not valid''"]
  by (simp add: isInternalError_def)

lemma retryLoop_exits_inside:
  "1 \<le> attempt \<Longrightarrow> attempt \<le> maxRetries \<Longrightarrow>
   fst (retryLoop g attempt) \<noteq> FellThrough
   \<and> 1 \<le> attempts (snd (retryLoop g attempt))
   \<and> attempt + attempts (snd (retryLoop g attempt)) \<le> maxRetries + 1
   \<and> settled (fst (retryLoop g attempt)) = g (attempt + attempts (snd (retryLoop g attempt)) - 1)"
proof (induction g attempt rule: retryLoop.induct)
  case (1 g attempt)
  show ?case
  proof (cases "g attempt")
    case (Inr r)
    with "1.prems" show ?thesis
      by (simp add: retryLoop_return attempts_def)
  next
    case (Inl e)
    show ?thesis
    proof (cases "isInternalError e \<and> attempt < maxRetries")
      case False
      with Inl "1.prems" show ?thesis
        by (simp add: retryLoop_rethrow attempts_def)
    next
      case True
      then have unfold: "retryLoop g attempt =
          (fst (retryLoop g (attempt + 1)),
           Attempt attempt # Sleep (initialDelay * 2 ^ (attempt - 1)) # snd (retryLoop g (attempt + 1)))"
        using Inl by (simp add: retryLoop_retry)
      have ih: "fst (retryLoop g (attempt + 1)) \<noteq> FellThrough
          \<and> 1 \<le> attempts (snd (retryLoop g (attempt + 1)))
          \<and> attempt + 1 + attempts (snd (retryLoop g (attempt + 1))) \<le> maxRetries + 1
          \<and> settled (fst (retryLoop g (attempt + 1))) =
              g (attempt + 1 + attempts (snd (retryLoop g (attempt + 1))) - 1)"
        using "1.IH"[OF _ Inl True refl] True "1.prems" by simp
      have count: "attempts (snd (retryLoop g attempt)) = 1 + attempts (snd (retryLoop g (attempt + 1)))"
        by (simp add: unfold attempts_def)
      show ?thesis
        using ih by (simp add: count) (simp add: unfold)
    qed
  qed
qed

text \<open>
  Claim C10. Whatever the remote call does, the wrapper leaves its loop from inside, by
  \<open>return\<close> or by \<open>throw\<close>, after at least one and at most \<open>maxRetries\<close> attempts, and
  what its caller receives is what the last attempt gave: the \<open>throw\<close> after the loop
  is never reached.
\<close>

theorem loop_never_falls_through:
  "fst (callGeminiWithRetry generateContent) \<noteq> FellThrough
   \<and> 1 \<le> attempts (snd (callGeminiWithRetry generateContent))
   \<and> attempts (snd (callGeminiWithRetry generateContent)) \<le> maxRetries
   \<and> settled (fst (callGeminiWithRetry generateContent)) =
       generateContent (attempts (snd (callGeminiWithRetry generateContent)))"
  using retryLoop_exits_inside[of 1 generateContent]
  by (simp add: callGeminiWithRetry_def maxRetries_def)

section \<open>Properties of response processing and of input checking\<close>

lemma find_none_of_all: "list_all (\<lambda>p. \<not> P p) ps \<Longrightarrow> find P ps = None"
  by (induction ps) auto

lemma lacking_no_image_part:
  "lacksImagePayload response \<Longrightarrow> imagePartFromResponse response = None"
  by (auto simp: lacksImagePayload_def allParts_def imagePartFromResponse_def
      intro!: find_none_of_all split: option.splits list.splits)

lemma js_includes_prefix: "js_includes (t @ b) t"
proof (cases "t @ b")
  case Nil
  then show ?thesis by simp
next
  case (Cons c cs)
  have "prefix t (t @ b)" by simp
  then show ?thesis unfolding Cons by simp
qed

lemma js_includes_append: "js_includes (a @ t @ b) t"
proof (induction a)
  case Nil
  show ?case using js_includes_prefix by simp
next
  case (Cons c a)
  then show ?case by simp
qed

text \<open>
  Claim C9. A response none of whose parts carries \<open>inlineData\<close> makes
  \<open>processGeminiResponse\<close> throw; the message of the error quotes the text of the
  response (or a fixed notice when the response has no text).
\<close>

theorem response_without_image_is_failure:
  assumes "lacksImagePayload response"
  shows "processGeminiResponse response =
           Inl (JsError (''The AI model responded with text instead of an image: \"''
                         @ textOrDefault (response_text response) @ ''\"''))
         \<and> (\<forall>t. response_text response = Some t \<and> t \<noteq> [] \<longrightarrow>
               processGeminiResponse response =
                 Inl (JsError (''The AI model responded with text instead of an image: \"'' @ t @ ''\"''))
               \<and> js_includes (''The AI model responded with text instead of an image: \"'' @ t @ ''\"'') t)"
proof -
  have thrown: "processGeminiResponse response = Inl (JsError (noImageMessage (response_text response)))"
    using lacking_no_image_part[OF assms] by (simp add: processGeminiResponse_def)
  have first: "processGeminiResponse response =
           Inl (JsError (''The AI model responded with text instead of an image: \"''
                         @ textOrDefault (response_text response) @ ''\"''))"
    unfolding thrown noImageMessage_def ..
  have second: "processGeminiResponse response =
                 Inl (JsError (''The AI model responded with text instead of an image: \"'' @ t @ ''\"''))
               \<and> js_includes (''The AI model responded with text instead of an image: \"'' @ t @ ''\"'') t"
    if "response_text response = Some t \<and> t \<noteq> []" for t
  proof
    from that have "textOrDefault (response_text response) = t" by simp
    with first show "processGeminiResponse response =
        Inl (JsError (''The AI model responded with text instead of an image: \"'' @ t @ ''\"''))"
      by (simp only:)
    show "js_includes (''The AI model responded with text instead of an image: \"'' @ t @ ''\"'') t"
      by (rule js_includes_append)
  qed
  from first second show ?thesis by blast
qed

theorem response_without_image_is_failure_witness:
  "processGeminiResponse
     \<lparr>candidates = Some [\<lparr>candidate_content = Some \<lparr>parts = Some [\<lparr>inlineData = None\<rparr>]\<rparr>\<rparr>],
      response_text = Some ''I cannot help with that.''\<rparr> =
   Inl (JsError ''The AI model responded with text instead of an image: \"I cannot help with that.\"'')"
  using response_without_image_is_failure
    [of "\<lparr>candidates = Some [\<lparr>candidate_content = Some \<lparr>parts = Some [\<lparr>inlineData = None\<rparr>]\<rparr>\<rparr>],
          response_text = Some ''I cannot help with that.''\<rparr>"]
  by (simp add: lacksImagePayload_def allParts_def)

lemma malformed_url_fails_before_dispatch:
  "matchDataUrl imageDataUrl = None \<Longrightarrow>
   generatePimpImage generateContent imageDataUrl pimpName = (Inl invalidDataUrl, [])"
  by (simp add: generatePimpImage_def)

lemma falsy_prompt_fails_before_dispatch:
  "\<not> truthy (PROMPTS_get pimpName) \<Longrightarrow>
   \<exists>err. generatePimpImage generateContent imageDataUrl pimpName = (Inl err, [])"
  by (simp add: generatePimpImage_def split: option.splits)

lemma absent_everywhere_fails_before_dispatch:
  "map_of PROMPTS pimpName = None \<Longrightarrow> pimpName \<notin> set objectPrototypeKeys \<Longrightarrow>
   \<exists>err. generatePimpImage generateContent imageDataUrl pimpName = (Inl err, [])"
  by (rule falsy_prompt_fails_before_dispatch) (simp add: PROMPTS_get_def)

lemma sample_url: "matchDataUrl ''data:image/png;base64,AAAA'' = Some (''image/png'', ''AAAA'')"
  by (simp add: matchDataUrl_def isWordChar_def isLineTerminator_def)

lemma constructor_not_own: "map_of PROMPTS ''constructor'' = None"
  by (simp add: PROMPTS_def)

lemma constructor_lookup: "PROMPTS_get ''constructor'' = Inherited ''constructor''"
  by (simp add: PROMPTS_get_def constructor_not_own objectPrototypeKeys_def)

lemma callGeminiWithRetry_first: "\<exists>evs. snd (callGeminiWithRetry g) = Attempt 1 # evs"
  unfolding callGeminiWithRetry_def
  by (subst retryLoop.simps) (auto simp: maxRetries_def split: sum.splits prod.splits)

text \<open>
  Claim C8. The promise is that a name without entry in the prompt table fails before
  any remote call. The key \<open>constructor\<close> has no entry in \<open>PROMPTS\<close>, but the
  property read finds the member inherited from \<open>Object.prototype\<close>, which is truthy:
  with a well-formed data URL the remote call is made, for every behaviour of the remote.
\<close>

theorem inherited_key_reaches_remote_call:
  "map_of PROMPTS ''constructor'' = None
   \<and> (\<exists>evs. snd (generatePimpImage generateContent ''data:image/png;base64,AAAA'' ''constructor'')
             = Attempt 1 # evs)"
proof -
  let ?req = "\<lparr>request_mimeType = ''image/png'', request_data = ''AAAA'',
               request_text = Inherited ''constructor''\<rparr>"
  obtain evs where "snd (callGeminiWithRetry (generateContent ?req)) = Attempt 1 # evs"
    using callGeminiWithRetry_first by blast
  then have "snd (generatePimpImage generateContent ''data:image/png;base64,AAAA'' ''constructor'')
             = Attempt 1 # evs"
    by (simp add: generatePimpImage_def sample_url constructor_lookup split_beta Let_def
        split: sum.splits)
  then show ?thesis using constructor_not_own by blast
qed

section \<open>Properties of a generation run\<close>

lemma archetypes_distinct: "distinct PIMP_ARCHETYPES"
  by (simp add: PIMP_ARCHETYPES_def)

lemma archetypes_truthy: "[] \<notin> set PIMP_ARCHETYPES"
  by (simp add: PIMP_ARCHETYPES_def)

lemma map_of_fold_update:
  "map_of (fold (\<lambda>k acc. AList.update k v acc) ks al) k' =
     (if k' \<in> set ks then Some v else map_of al k')"
  by (induction ks arbitrary: al) (auto simp: update_conv')

lemma initialImages_pending:
  "map_of initialImages pimp = (if pimp \<in> set PIMP_ARCHETYPES then Some pendingImage else None)"
  by (simp add: initialImages_def map_of_fold_update)

lemma processPimp_records:
  "processPimp pimp settledWith prev = Inr (AList.update pimp (entryFor settledWith) prev)"
  by (cases settledWith rule: entryFor.cases) (simp_all add: processPimp_def)

lemma awaited_length: "length (awaited ws) \<le> length ws"
  by (induction ws rule: awaited.induct) auto

lemma awaited_pick_up:
  "w < length ws \<Longrightarrow> awaited [ws ! w] = [] \<Longrightarrow>
   mset (awaited (ws[w := Awaiting pimp])) = add_mset pimp (mset (awaited ws))"
proof (induction ws arbitrary: w)
  case Nil
  then show ?case by simp
next
  case (Cons a ws)
  then show ?case
    by (cases w; cases a) auto
qed

lemma awaited_settle:
  "w < length ws \<Longrightarrow> ws ! w = Awaiting pimp \<Longrightarrow> awaited [x] = [] \<Longrightarrow>
   mset (awaited ws) = add_mset pimp (mset (awaited (ws[w := x])))"
proof (induction ws arbitrary: w)
  case Nil
  then show ?case by simp
next
  case (Cons a ws)
  then show ?case
    by (cases w; cases a; cases x) auto
qed

lemma awaited_leave:
  "w < length ws \<Longrightarrow> awaited [ws ! w] = [] \<Longrightarrow> awaited [x] = [] \<Longrightarrow>
   awaited (ws[w := x]) = awaited ws"
proof (induction ws arbitrary: w)
  case Nil
  then show ?case by simp
next
  case (Cons a ws)
  then show ?case
    by (cases w; cases a; cases x) auto
qed

lemma awaited_all_finished: "list_all (\<lambda>w. w = Finished) ws \<Longrightarrow> awaited ws = []"
  by (induction ws) auto


lemma run_needs_a_photo:
  "handleGenerateClick None = None"
  "handleGenerateClick (Some []) = None"
  "handleGenerateClick (Some (c # cs)) = Some initialRun"
  by (simp_all add: handleGenerateClick_def)

lemma run_inv_initial: "run_inv initialRun"
  by (simp add: run_inv_def initialRun_def run_threw_def
      concurrencyLimit_def numeral_2_eq_2)

lemma rejected_update:
  "\<not> list_ex isRejected ws \<Longrightarrow> \<not> isRejected x \<Longrightarrow> \<not> list_ex isRejected (ws[w := x])"
  using set_update_subset_insert[of ws w x] by (auto simp: list_ex_iff)

lemma finished_update:
  "Finished \<in> set (ws[w := x]) \<Longrightarrow> x \<noteq> Finished \<Longrightarrow> Finished \<in> set ws"
  using set_update_subset_insert[of ws w x] by auto

lemma dispatched_distinct:
  assumes "run_inv s"
  shows "distinct (map fst (outcomes s) @ awaited (workers s))"
proof -
  have "distinct (dispatched s)"
    using assms archetypes_distinct by (metis distinct_append run_inv_def)
  moreover have "mset (map fst (outcomes s) @ awaited (workers s)) = mset (dispatched s)"
    using assms by (simp add: run_inv_def)
  ultimately show ?thesis
    by (metis mset_eq_imp_distinct_iff)
qed

lemma run_inv_loop:
  assumes inv: "run_inv s" and step: "run_step (Loop w) s = Some s'"
  shows "run_inv s'"
proof -
  from step have w: "w < length (workers s)" and head: "workers s ! w = AtLoopHead"
    by (auto split: if_splits)
  show ?thesis
  proof (cases "pimpQueue s")
    case Nil
    with step w head have s': "s' = s\<lparr>workers := (workers s)[w := Finished]\<rparr>"
      by simp
    have "awaited ((workers s)[w := Finished]) = awaited (workers s)"
      using w head by (simp add: awaited_leave)
    with inv Nil show ?thesis
      unfolding s' run_inv_def run_threw_def by (simp add: rejected_update)
  next
    case (Cons pimp rest)
    have "pimp \<in> set PIMP_ARCHETYPES"
      using inv Cons by (metis in_set_conv_decomp run_inv_def)
    then have truthy: "pimp \<noteq> []"
      using archetypes_truthy by auto
    with step w head Cons have s':
      "s' = s\<lparr>pimpQueue := rest, workers := (workers s)[w := Awaiting pimp],
              dispatched := dispatched s @ [pimp]\<rparr>"
      by simp
    have aw: "mset (awaited ((workers s)[w := Awaiting pimp])) =
              add_mset pimp (mset (awaited (workers s)))"
      using w head by (simp add: awaited_pick_up)
    have fin: "Finished \<notin> set ((workers s)[w := Awaiting pimp])"
      using inv Cons finished_update[of "workers s" w "Awaiting pimp"]
      by (auto simp: run_inv_def)
    from inv Cons show ?thesis
      unfolding s' run_inv_def run_threw_def
      by (simp add: aw fin rejected_update)
  qed
qed

lemma run_inv_settle:
  assumes inv: "run_inv s" and step: "run_step (Settle w r) s = Some s'"
  shows "run_inv s'"
proof -
  from step obtain pimp where w: "w < length (workers s)"
    and waits: "workers s ! w = Awaiting pimp"
    by (auto split: if_splits worker.splits)
  with step have s':
    "s' = s\<lparr>generatedImages := AList.update pimp (entryFor r) (generatedImages s),
            workers := (workers s)[w := AtLoopHead],
            outcomes := outcomes s @ [(pimp, r)]\<rparr>"
    by (simp add: processPimp_records)
  have aw: "mset (awaited (workers s)) =
            add_mset pimp (mset (awaited ((workers s)[w := AtLoopHead])))"
    using w waits by (simp add: awaited_settle)
  have "pimp \<in> set (awaited (workers s))"
    by (metis aw mset_add set_mset_mset union_single_eq_member)
  then have fresh: "pimp \<notin> fst ` set (outcomes s)"
    using dispatched_distinct[OF inv] by auto
  have len: "length ((workers s)[w := AtLoopHead]) = concurrencyLimit"
    using inv by (simp add: run_inv_def)
  have queue: "dispatched s @ pimpQueue s = PIMP_ARCHETYPES"
    using inv by (simp add: run_inv_def)
  have count: "mset (map fst (outcomes s @ [(pimp, r)]))
               + mset (awaited ((workers s)[w := AtLoopHead])) = mset (dispatched s)"
    using inv aw by (simp add: run_inv_def)
  have calm: "\<not> list_ex isRejected ((workers s)[w := AtLoopHead])"
    using inv by (simp add: run_inv_def run_threw_def rejected_update)
  have fin: "Finished \<in> set ((workers s)[w := AtLoopHead]) \<longrightarrow> pimpQueue s = []"
    using inv finished_update[of "workers s" w AtLoopHead] by (auto simp: run_inv_def)
  show ?thesis
    unfolding s' run_inv_def run_threw_def
    using len queue count calm fin by simp
qed

lemma run_inv_step: "run_inv s \<Longrightarrow> run_step e s = Some s' \<Longrightarrow> run_inv s'"
  by (cases e) (auto intro: run_inv_loop run_inv_settle)

text \<open>
  Every step of the run lowers \<open>remaining\<close>, which is twelve at the start, and as long
  as a worker is in its loop some step is possible: a run whose calls all settle
  completes.
\<close>

lemma filter_length_update:
  "w < length ws \<Longrightarrow>
   length (filter P (ws[w := x])) + (if P (ws ! w) then 1 else 0) =
   length (filter P ws) + (if P x then 1 else 0)"
proof (induction ws arbitrary: w)
  case Nil
  then show ?case by simp
next
  case (Cons a ws)
  then show ?case
    by (cases w) auto
qed

lemma run_step_decreases:
  assumes "run_step e s = Some s'"
  shows "remaining s' < remaining s"
proof (cases e)
  case (Loop w)
  with assms have w: "w < length (workers s)" and head: "workers s ! w = AtLoopHead"
    by (auto split: if_splits)
  show ?thesis
  proof (cases "pimpQueue s")
    case Nil
    with assms Loop w head have s': "s' = s\<lparr>workers := (workers s)[w := Finished]\<rparr>"
      by simp
    have "awaited ((workers s)[w := Finished]) = awaited (workers s)"
      using w head by (simp add: awaited_leave)
    moreover have "length (filter (\<lambda>w. w \<noteq> Finished) ((workers s)[w := Finished])) + 1 =
                   length (filter (\<lambda>w. w \<noteq> Finished) (workers s))"
      using filter_length_update[OF w, of "\<lambda>w. w \<noteq> Finished" Finished] head by simp
    ultimately show ?thesis
      by (simp add: s' remaining_def)
  next
    case (Cons pimp rest)
    show ?thesis
    proof (cases "pimp = []")
      case True
      with assms Loop w head Cons have "s' = s\<lparr>pimpQueue := rest\<rparr>"
        by simp
      then show ?thesis
        by (simp add: remaining_def Cons)
    next
      case False
      with assms Loop w head Cons have s':
        "s' = s\<lparr>pimpQueue := rest, workers := (workers s)[w := Awaiting pimp],
                dispatched := dispatched s @ [pimp]\<rparr>"
        by simp
      have "mset (awaited ((workers s)[w := Awaiting pimp])) =
            add_mset pimp (mset (awaited (workers s)))"
        using w head by (simp add: awaited_pick_up)
      then have "length (awaited ((workers s)[w := Awaiting pimp])) =
                 Suc (length (awaited (workers s)))"
        by (metis size_add_mset size_mset)
      moreover have "length (filter (\<lambda>w. w \<noteq> Finished) ((workers s)[w := Awaiting pimp])) =
                     length (filter (\<lambda>w. w \<noteq> Finished) (workers s))"
        using filter_length_update[OF w, of "\<lambda>w. w \<noteq> Finished" "Awaiting pimp"] head by simp
      ultimately show ?thesis
        by (simp add: s' remaining_def Cons)
    qed
  qed
next
  case (Settle w res)
  with assms obtain pimp where w: "w < length (workers s)"
    and waits: "workers s ! w = Awaiting pimp"
    by (auto split: if_splits worker.splits)
  with assms Settle have s':
    "s' = s\<lparr>generatedImages := AList.update pimp (entryFor res) (generatedImages s),
            workers := (workers s)[w := AtLoopHead],
            outcomes := outcomes s @ [(pimp, res)]\<rparr>"
    by (simp add: processPimp_records)
  have "mset (awaited (workers s)) =
        add_mset pimp (mset (awaited ((workers s)[w := AtLoopHead])))"
    using w waits by (simp add: awaited_settle)
  then have "length (awaited (workers s)) = Suc (length (awaited ((workers s)[w := AtLoopHead])))"
    by (metis size_add_mset size_mset)
  moreover have "length (filter (\<lambda>w. w \<noteq> Finished) ((workers s)[w := AtLoopHead])) =
                 length (filter (\<lambda>w. w \<noteq> Finished) (workers s))"
    using filter_length_update[OF w, of "\<lambda>w. w \<noteq> Finished" AtLoopHead] waits by simp
  ultimately show ?thesis
    by (simp add: s' remaining_def)
qed

lemma run_not_stuck:
  assumes inv: "run_inv s" and "\<not> run_complete s"
  shows "\<exists>e s'. run_step e s = Some s'"
proof -
  from assms(2) obtain w where w: "w < length (workers s)" and busy: "workers s ! w \<noteq> Finished"
    by (auto simp: run_complete_def list_all_length)
  have calm: "\<not> isRejected (workers s ! w)"
    using inv w by (auto simp: run_inv_def run_threw_def list_ex_length)
  show ?thesis
  proof (cases "workers s ! w")
    case AtLoopHead
    with w have "run_step (Loop w) s \<noteq> None"
      by (auto split: list.splits)
    then show ?thesis by blast
  next
    case (Awaiting pimp)
    with w have "run_step (Settle w (Inr [])) s \<noteq> None"
      by (simp add: processPimp_records)
    then show ?thesis by blast
  next
    case Finished
    with busy show ?thesis by simp
  next
    case (Rejected err)
    with calm show ?thesis by simp
  qed
qed

lemma initial_remaining: "remaining initialRun = 12"
  by (simp add: remaining_def initialRun_def PIMP_ARCHETYPES_def concurrencyLimit_def
      numeral_2_eq_2)

lemma entryFor_terminal: "isTerminal (Some (status (entryFor r)))"
  by (cases r rule: entryFor.cases) (simp_all add: isTerminal_def doneImage_def errorImage_def)

lemma complete_all_settled:
  assumes inv: "run_inv s" and complete: "run_complete s"
  shows "dispatched s = PIMP_ARCHETYPES" and "set (map fst (outcomes s)) = set PIMP_ARCHETYPES"
proof -
  have "workers s \<noteq> []"
    using inv by (auto simp: run_inv_def concurrencyLimit_def)
  then have "Finished \<in> set (workers s)"
    using complete by (cases "workers s") (auto simp: run_complete_def)
  then have "pimpQueue s = []"
    using inv by (simp add: run_inv_def)
  then show all: "dispatched s = PIMP_ARCHETYPES"
    using inv by (simp add: run_inv_def)
  have "awaited (workers s) = []"
    using complete by (simp add: run_complete_def awaited_all_finished)
  then have "mset (map fst (outcomes s)) = mset (dispatched s)"
    using inv by (simp add: run_inv_def)
  then show "set (map fst (outcomes s)) = set PIMP_ARCHETYPES"
    using all by (metis set_mset_mset)
qed

section \<open>Properties of the run and of regeneration\<close>

text \<open>
  The application is the run together with the cards: while the run goes on, a card
  whose item is \<open>'done'\<close> or \<open>'error'\<close> in the latest render can be shaken, which
  starts a call of its own.
\<close>

lemma statusOf_update:
  "statusOf (AList.update k v al) p = (if p = k then Some (status v) else statusOf al p)"
  by (simp add: statusOf_def update_conv')

lemma run_inv_images: "run_inv (r\<lparr>generatedImages := imgs\<rparr>) = run_inv r"
  by (simp add: run_inv_def run_threw_def)

lemma pickup_keeps_statuses:
  "run_step (Loop w) r = Some r' \<Longrightarrow>
   generatedImages r' = generatedImages r \<and> outcomes r' = outcomes r"
  by (auto split: if_splits list.splits)

lemma pickup_keeps_busy:
  assumes step: "run_step (Loop w) r = Some r'" and p: "p \<noteq> []"
    and busy: "p \<in> set (pimpQueue r @ awaited (workers r))"
  shows "p \<in> set (pimpQueue r' @ awaited (workers r'))"
proof -
  from step have w: "w < length (workers r)" and head: "workers r ! w = AtLoopHead"
    by (auto split: if_splits)
  show ?thesis
  proof (cases "pimpQueue r")
    case Nil
    with step w head have r': "r' = r\<lparr>workers := (workers r)[w := Finished]\<rparr>"
      by simp
    have "awaited ((workers r)[w := Finished]) = awaited (workers r)"
      using w head by (simp add: awaited_leave)
    with busy show ?thesis
      by (simp add: r')
  next
    case (Cons pimp rest)
    show ?thesis
    proof (cases "pimp = []")
      case True
      with step w head Cons have "r' = r\<lparr>pimpQueue := rest\<rparr>"
        by simp
      with busy p Cons True show ?thesis
        by auto
    next
      case False
      with step w head Cons have r':
        "r' = r\<lparr>pimpQueue := rest, workers := (workers r)[w := Awaiting pimp],
                dispatched := dispatched r @ [pimp]\<rparr>"
        by simp
      have "mset (awaited ((workers r)[w := Awaiting pimp])) =
            add_mset pimp (mset (awaited (workers r)))"
        using w head by (simp add: awaited_pick_up)
      then have "set (awaited ((workers r)[w := Awaiting pimp])) =
                 insert pimp (set (awaited (workers r)))"
        by (metis set_mset_add_mset_insert set_mset_mset)
      with busy Cons show ?thesis
        by (auto simp: r')
    qed
  qed
qed

lemma settle_shape:
  assumes "run_step (Settle w res) r = Some r'"
  shows "\<exists>pimp. w < length (workers r) \<and> workers r ! w = Awaiting pimp
           \<and> r' = r\<lparr>generatedImages := AList.update pimp (entryFor res) (generatedImages r),
                     workers := (workers r)[w := AtLoopHead],
                     outcomes := outcomes r @ [(pimp, res)]\<rparr>"
  using assms by (auto simp: processPimp_records split: if_splits worker.splits)


lemma app_inv_initial: "app_inv (initialApp stale)"
  by (simp add: app_inv_def initialApp_def run_inv_initial) (simp add: initialRun_def)

lemma app_inv_loop:
  assumes inv: "app_inv s" and step: "run_step (Loop w) (run s) = Some r"
  shows "app_inv (s\<lparr>run := r\<rparr>)"
proof -
  have run: "run_inv r"
    using inv step by (auto simp: app_inv_def intro: run_inv_loop)
  have same: "generatedImages r = generatedImages (run s)" "outcomes r = outcomes (run s)"
    using pickup_keeps_statuses[OF step] by simp_all
  have busy: "pimp \<in> set (pimpQueue r @ awaited (workers r) @ regenerating s)
              \<or> isTerminal (statusOf (generatedImages (run s)) pimp)"
    if "pimp \<in> set PIMP_ARCHETYPES" for pimp
  proof -
    from that have "pimp \<noteq> []"
      using archetypes_truthy by auto
    with inv that pickup_keeps_busy[OF step, of pimp] show ?thesis
      by (auto simp: app_inv_def inFlight_def)
  qed
  from inv run busy show ?thesis
    by (simp add: app_inv_def inFlight_def same)
qed

lemma app_inv_settle:
  assumes inv: "app_inv s" and step: "run_step (Settle w res) (run s) = Some r"
  shows "app_inv (s\<lparr>run := r\<rparr>)"
proof -
  have run: "run_inv r"
    using inv step by (auto simp: app_inv_def intro: run_inv_settle)
  from settle_shape[OF step] obtain pimp where w: "w < length (workers (run s))"
    and waits: "workers (run s) ! w = Awaiting pimp"
    and r: "r = (run s)\<lparr>generatedImages := AList.update pimp (entryFor res) (generatedImages (run s)),
                         workers := (workers (run s))[w := AtLoopHead],
                         outcomes := outcomes (run s) @ [(pimp, res)]\<rparr>"
    by blast
  let ?ws' = "(workers (run s))[w := AtLoopHead]"
  have aw: "mset (awaited (workers (run s))) = add_mset pimp (mset (awaited ?ws'))"
    using w waits by (simp add: awaited_settle)
  then have sets: "set (awaited (workers (run s))) = insert pimp (set (awaited ?ws'))"
    by (metis set_mset_add_mset_insert set_mset_mset)
  have "run_inv (run s)"
    using inv by (simp add: app_inv_def)
  then have fresh: "pimp \<notin> fst ` set (outcomes (run s))"
    using dispatched_distinct[of "run s"] sets by auto
  have recorded: "p \<in> set (overwritten s)
      \<or> map_of (AList.update pimp (entryFor res) (generatedImages (run s))) p = Some (entryFor r0)"
    if "(p, r0) \<in> set (outcomes (run s) @ [(pimp, res)])" for p r0
  proof (cases "(p, r0) = (pimp, res)")
    case True
    then show ?thesis by (simp add: update_conv')
  next
    case False
    with that have old: "(p, r0) \<in> set (outcomes (run s))"
      by auto
    then have "p \<noteq> pimp"
      using fresh by force
    with old inv show ?thesis
      by (auto simp: app_inv_def update_conv')
  qed
  have busy: "p \<in> set (pimpQueue (run s) @ awaited ?ws' @ regenerating s)
      \<or> isTerminal (statusOf (AList.update pimp (entryFor res) (generatedImages (run s))) p)"
    if "p \<in> set PIMP_ARCHETYPES" for p
  proof (cases "p = pimp")
    case True
    then show ?thesis by (simp add: statusOf_update entryFor_terminal)
  next
    case False
    with inv that sets show ?thesis
      by (auto simp: app_inv_def inFlight_def statusOf_update)
  qed
  from run recorded busy show ?thesis
    unfolding app_inv_def inFlight_def r by (simp add: r[symmetric]) (auto simp: r)
qed

lemma app_inv_regenerate:
  assumes inv: "app_inv s"
  shows "app_inv (handleRegeneratePimp pimp s)"
proof (cases "statusOf (rendered s) pimp = Some Pending")
  case True
  with inv show ?thesis by (simp add: handleRegeneratePimp_def)
next
  case False
  with inv show ?thesis
    by (auto simp: handleRegeneratePimp_def app_inv_def inFlight_def run_inv_images
        update_conv' statusOf_update)
qed

lemma app_inv_regenerate_settled:
  assumes inv: "app_inv s"
  shows "app_inv (regenerateSettled pimp res s)"
proof -
  have busy: "p \<in> set (pimpQueue (run s) @ awaited (workers (run s)) @ remove1 pimp (regenerating s))
      \<or> isTerminal (statusOf (AList.update pimp (entryFor res) (generatedImages (run s))) p)"
    if "p \<in> set PIMP_ARCHETYPES" for p
  proof (cases "p = pimp")
    case True
    then show ?thesis by (simp add: statusOf_update entryFor_terminal)
  next
    case False
    with inv that show ?thesis
      by (auto simp: app_inv_def inFlight_def statusOf_update)
  qed
  have recorded: "p \<in> set (overwritten s @ [pimp])
      \<or> map_of (AList.update pimp (entryFor res) (generatedImages (run s))) p = Some (entryFor r0)"
    if "(p, r0) \<in> set (outcomes (run s))" for p r0
    using inv that by (cases "p = pimp") (auto simp: app_inv_def update_conv')
  from inv busy recorded show ?thesis
    by (auto simp: regenerateSettled_def app_inv_def inFlight_def run_inv_images)
qed

lemma app_inv_step: "app_inv s \<Longrightarrow> app_step e s = Some s' \<Longrightarrow> app_inv s'"
proof (cases e)
  case (RunEvent re)
  assume "app_inv s" "app_step e s = Some s'"
  with RunEvent show ?thesis
    by (cases re) (auto split: option.splits intro: app_inv_loop app_inv_settle)
next
  case Render
  assume "app_inv s" "app_step e s = Some s'"
  with Render show ?thesis
    by (auto simp: app_inv_def inFlight_def)
next
  case (Regenerate pimp)
  assume "app_inv s" "app_step e s = Some s'"
  with Regenerate show ?thesis
    by (auto intro: app_inv_regenerate)
next
  case (RegenerateSettle pimp res)
  assume "app_inv s" "app_step e s = Some s'"
  with RegenerateSettle show ?thesis
    by (auto split: if_splits intro: app_inv_regenerate_settled)
qed

lemma app_inv_exec: "app_inv s \<Longrightarrow> app_exec es s = Some s' \<Longrightarrow> app_inv s'"
proof (induction es arbitrary: s)
  case Nil
  then show ?case by simp
next
  case (Cons e es)
  then show ?case
    by (auto split: option.splits dest: app_inv_step)
qed

lemma app_inv_reachable: "app_exec evs (initialApp stale) = Some s \<Longrightarrow> app_inv s"
  using app_inv_exec app_inv_initial by blast

text \<open>
  The example sessions, evaluated.
\<close>

lemmas session_defs =
  initialApp_def initialRun_def initialImages_def PIMP_ARCHETYPES_def concurrencyLimit_def
  processPimp_def numeral_2_eq_2 handleRegeneratePimp_def statusOf_def doneImage_def
  errorImage_def pendingImage_def

lemma regeneratedWhileRunning_ends:
  "app_exec regeneratedWhileRunning (initialApp []) =
   Some \<lparr>run =
           \<lparr>pimpQueue = [], workers = [Finished, Finished],
            generatedImages =
              [(''Kiez-K'' @ [CHR 0xF6] @ ''nig'', doneImage ''data:image/png;base64,AA''),
               (''Luden-Larry'', pendingImage),
               (''Gold-Zahn G'' @ [CHR 0xFC] @ ''nther'', doneImage ''data:image/png;base64,BB''),
               (''Disco Dieter'', doneImage ''data:image/png;base64,CC''),
               (''Porsche-Paul'', doneImage ''data:image/png;base64,DD'')],
            dispatched = PIMP_ARCHETYPES,
            outcomes =
              [(''Luden-Larry'', Inl (JsError ''The AI model failed to generate an image. Details: blocked'')),
               (''Kiez-K'' @ [CHR 0xF6] @ ''nig'', Inr ''data:image/png;base64,AA''),
               (''Gold-Zahn G'' @ [CHR 0xFC] @ ''nther'', Inr ''data:image/png;base64,BB''),
               (''Disco Dieter'', Inr ''data:image/png;base64,CC''),
               (''Porsche-Paul'', Inr ''data:image/png;base64,DD'')]\<rparr>,
         rendered =
           [(''Kiez-K'' @ [CHR 0xF6] @ ''nig'', pendingImage),
            (''Luden-Larry'', errorImage ''The AI model failed to generate an image. Details: blocked''),
            (''Gold-Zahn G'' @ [CHR 0xFC] @ ''nther'', pendingImage),
            (''Disco Dieter'', pendingImage),
            (''Porsche-Paul'', pendingImage)],
         regenerating = [''Luden-Larry''],
         overwritten = [''Luden-Larry'']\<rparr>"
  by (simp add: regeneratedWhileRunning_def session_defs)


lemma threeCallsAtOnce_ends:
  "app_exec threeCallsAtOnce (initialApp []) =
   Some \<lparr>run =
           \<lparr>pimpQueue = [''Disco Dieter'', ''Porsche-Paul''],
            workers = [Awaiting (''Gold-Zahn G'' @ [CHR 0xFC] @ ''nther''), Awaiting ''Luden-Larry''],
            generatedImages = initialImages,
            dispatched = [''Kiez-K'' @ [CHR 0xF6] @ ''nig'', ''Luden-Larry'',
                          ''Gold-Zahn G'' @ [CHR 0xFC] @ ''nther''],
            outcomes = [(''Kiez-K'' @ [CHR 0xF6] @ ''nig'', Inr ''data:image/png;base64,AA'')]\<rparr>,
         rendered =
           [(''Kiez-K'' @ [CHR 0xF6] @ ''nig'', doneImage ''data:image/png;base64,AA''),
            (''Luden-Larry'', pendingImage),
            (''Gold-Zahn G'' @ [CHR 0xFC] @ ''nther'', pendingImage),
            (''Disco Dieter'', pendingImage),
            (''Porsche-Paul'', pendingImage)],
         regenerating = [''Kiez-K'' @ [CHR 0xF6] @ ''nig''],
         overwritten = [''Kiez-K'' @ [CHR 0xF6] @ ''nig'']\<rparr>"
  by (simp add: threeCallsAtOnce_def session_defs)





text \<open>
  Claim C7, as the code has it. In every state the application can reach from the start
  of a run: the names the run has dispatched and whose call has not settled are exactly
  those its workers await, at most \<open>concurrencyLimit = 2\<close> and pairwise different; no
  name has been passed to \<open>processPimp\<close> twice; the names dispatched so far followed
  by the queue are the list of archetypes; and when the run is complete every archetype
  has been dispatched exactly once. Calls started by regeneration requests are outside
  this bound.
\<close>

theorem dispatched_unsettled_bounded_names_once:
  assumes "app_exec evs (initialApp stale) = Some s"
  shows "length (dispatched (run s)) \<le> length (outcomes (run s)) + concurrencyLimit
         \<and> concurrencyLimit = 2
         \<and> mset (dispatched (run s)) =
             mset (map fst (outcomes (run s))) + mset (awaited (workers (run s)))
         \<and> length (awaited (workers (run s))) \<le> concurrencyLimit
         \<and> distinct (awaited (workers (run s)))
         \<and> distinct (dispatched (run s))
         \<and> dispatched (run s) @ pimpQueue (run s) = PIMP_ARCHETYPES
         \<and> (run_complete (run s) \<longrightarrow> dispatched (run s) = PIMP_ARCHETYPES)"
proof -
  have "app_inv s"
    using assms by (rule app_inv_reachable)
  then have inv: "run_inv (run s)"
    by (simp add: app_inv_def)
  have "length (awaited (workers (run s))) \<le> length (workers (run s))"
    by (rule awaited_length)
  then have bound: "length (awaited (workers (run s))) \<le> concurrencyLimit"
    using inv by (simp add: run_inv_def)
  have parts: "mset (dispatched (run s)) =
               mset (map fst (outcomes (run s))) + mset (awaited (workers (run s)))"
    using inv by (simp add: run_inv_def)
  then have "size (mset (dispatched (run s))) =
             size (mset (map fst (outcomes (run s))) + mset (awaited (workers (run s))))"
    by simp
  then have "length (dispatched (run s)) =
             length (outcomes (run s)) + length (awaited (workers (run s)))"
    by simp
  with bound have unsettled:
    "length (dispatched (run s)) \<le> length (outcomes (run s)) + concurrencyLimit"
    by simp
  have once: "distinct (awaited (workers (run s)))"
    using dispatched_distinct[OF inv] by simp
  have split: "dispatched (run s) @ pimpQueue (run s) = PIMP_ARCHETYPES"
    using inv by (simp add: run_inv_def)
  then have log: "distinct (dispatched (run s))"
    using archetypes_distinct by (metis distinct_append)
  show ?thesis
    using unsettled parts bound once split log complete_all_settled(1)[OF inv]
    by (simp add: concurrencyLimit_def)
qed

theorem dispatched_unsettled_bounded_names_once_witness:
  "dispatched (run (the (app_exec threeCallsAtOnce (initialApp [])))) =
     [''Kiez-K'' @ [CHR 0xF6] @ ''nig'', ''Luden-Larry'', ''Gold-Zahn G'' @ [CHR 0xFC] @ ''nther'']
   \<and> map fst (outcomes (run (the (app_exec threeCallsAtOnce (initialApp []))))) =
       [''Kiez-K'' @ [CHR 0xF6] @ ''nig'']
   \<and> length (dispatched (run (the (app_exec threeCallsAtOnce (initialApp [])))))
       \<le> length (outcomes (run (the (app_exec threeCallsAtOnce (initialApp []))))) + concurrencyLimit
   \<and> run_complete (run (the (app_exec regeneratedWhileRunning (initialApp []))))
   \<and> dispatched (run (the (app_exec regeneratedWhileRunning (initialApp [])))) = PIMP_ARCHETYPES"
proof -
  have mid: "length (dispatched (run (the (app_exec threeCallsAtOnce (initialApp [])))))
       \<le> length (outcomes (run (the (app_exec threeCallsAtOnce (initialApp []))))) + concurrencyLimit"
    using dispatched_unsettled_bounded_names_once[OF threeCallsAtOnce_ends]
    unfolding threeCallsAtOnce_ends by simp
  have complete: "run_complete (run (the (app_exec regeneratedWhileRunning (initialApp []))))"
    unfolding regeneratedWhileRunning_ends by (simp add: run_complete_def)
  have all: "dispatched (run (the (app_exec regeneratedWhileRunning (initialApp [])))) = PIMP_ARCHETYPES"
    using dispatched_unsettled_bounded_names_once[OF regeneratedWhileRunning_ends] complete
    unfolding regeneratedWhileRunning_ends by simp
  show ?thesis
    using mid complete all unfolding threeCallsAtOnce_ends by simp
qed

text \<open>
  Claim C7 as stated fails: with both workers awaiting a call and the card of the
  finished item shaken, three calls are unsettled during the run, more than
  \<open>concurrencyLimit\<close>; and all five items have the one status \<open>Pending\<close>, since
  there is no status for a call in flight.
\<close>

theorem three_calls_unsettled_during_run:
  "app_exec threeCallsAtOnce (initialApp []) \<noteq> None
   \<and> \<not> run_complete (run (the (app_exec threeCallsAtOnce (initialApp []))))
   \<and> inFlight (the (app_exec threeCallsAtOnce (initialApp []))) =
       [''Gold-Zahn G'' @ [CHR 0xFC] @ ''nther'', ''Luden-Larry'', ''Kiez-K'' @ [CHR 0xF6] @ ''nig'']
   \<and> concurrencyLimit < length (inFlight (the (app_exec threeCallsAtOnce (initialApp []))))
   \<and> list_all
        (\<lambda>pimp. statusOf (generatedImages (run (the (app_exec threeCallsAtOnce (initialApp []))))) pimp
                = Some Pending)
        PIMP_ARCHETYPES"
  unfolding threeCallsAtOnce_ends
  by (simp add: run_complete_def inFlight_def concurrencyLimit_def statusOf_def
      initialImages_pending pendingImage_def PIMP_ARCHETYPES_def)




section \<open>Properties of the lookbook page\<close>

lemma loadAll_length: "loadAll loadImage srcs = Inr imgs \<Longrightarrow> length imgs = length srcs"
  by (induction srcs arbitrary: imgs) (auto split: sum.splits)

lemma map_after_enumerate: "map (f \<circ> snd) (enumerate n xs) = map f xs"
  by (induction xs arbitrary: n) auto

lemma figure_drawPhoto: "figure (drawPhoto index fig img r) = fig"
  by (simp add: drawPhoto_def Let_def)

lemma createLookbookPage_photos:
  assumes "createLookbookPage ctx loadImage random imageData = Inr photos"
  shows "length photos = length imageData"
    and "map figure photos = map fst imageData"
    and "\<forall>i < length photos. \<exists>img. photos ! i = drawPhoto i (fst (imageData ! i)) img (random i)"
proof -
  from assms obtain loadedImages where
    loaded: "loadAll loadImage (map snd imageData) = Inr loadedImages" and
    photos: "photos = map (\<lambda>(index, fig, img). drawPhoto index fig img (random index))
                        (enumerate 0 (zip (map fst imageData) loadedImages))"
    by (auto simp: createLookbookPage_def split: if_splits sum.splits)
  have len: "length loadedImages = length imageData"
    using loadAll_length[OF loaded] by simp
  show "length photos = length imageData"
    by (simp add: photos len)
  have "map figure photos = map (\<lambda>(index, fig, img). fig)
                              (enumerate 0 (zip (map fst imageData) loadedImages))"
    by (simp add: photos figure_drawPhoto split_beta)
  also have "\<dots> = map (fst \<circ> snd) (enumerate 0 (zip (map fst imageData) loadedImages))"
    by (rule arg_cong[where f = "\<lambda>f. map f _"]) auto
  also have "\<dots> = map fst (zip (map fst imageData) loadedImages)"
    by (rule map_after_enumerate)
  also have "\<dots> = map fst imageData"
    by (simp add: len)
  finally show "map figure photos = map fst imageData" .
  show "\<forall>i < length photos. \<exists>img. photos ! i = drawPhoto i (fst (imageData ! i)) img (random i)"
    by (auto simp: photos len nth_enumerate_eq)
qed

lemma abs_scaled_sin: "\<bar>a * sin t\<bar> \<le> \<bar>a\<bar>" for a t :: real
  using abs_sin_le_one[of t] by (simp add: abs_mult mult_left_le)

lemma abs_scaled_cos: "\<bar>a * cos t\<bar> \<le> \<bar>a\<bar>" for a t :: real
  using abs_cos_le_one[of t] by (simp add: abs_mult mult_left_le)

lemma covers_on_axis:
  assumes "fst pt = photo_x p + photoWidth / 2"
    and "\<bar>snd pt - (photo_y p + photoHeight / 2)\<bar> \<le> photoWidth / 2"
  shows "covers p pt"
proof -
  let ?dy = "snd pt - (photo_y p + photoHeight / 2)"
  have w: "photoWidth / 2 \<le> photoHeight / 2"
    by (simp add: photoHeight_def photoWidth_def cellWidth_def canvasWidth_def grid_padding_def
        grid_cols_def)
  have "\<bar>?dy * sin (rotation p)\<bar> \<le> photoWidth / 2"
    using abs_scaled_sin[of ?dy "rotation p"] assms(2) by linarith
  moreover have "\<bar>?dy * cos (rotation p)\<bar> \<le> photoHeight / 2"
    using abs_scaled_cos[of ?dy "rotation p"] assms(2) w by linarith
  ultimately show ?thesis
    using assms(1) by (simp add: covers_def Let_def)
qed

lemma first_card_covers: "covers (drawPhoto 0 fig img r) (645, 1739)"
  by (rule covers_on_axis)
     (simp_all add: drawPhoto_def Let_def photoHeight_def photoWidth_def cellWidth_def
        cellHeight_def contentHeight_def canvasWidth_def canvasHeight_def contentTopMargin_def
        grid_padding_def grid_cols_def grid_rows_def)

lemma third_card_covers: "covers (drawPhoto 2 fig img r) (645, 1739)"
  by (rule covers_on_axis)
     (simp_all add: drawPhoto_def Let_def photoHeight_def photoWidth_def cellWidth_def
        cellHeight_def contentHeight_def canvasWidth_def canvasHeight_def contentTopMargin_def
        grid_padding_def grid_cols_def grid_rows_def)


text \<open>
  The card is sized from the cell's width alone. It is taller than the distance between
  two rows, and the cards of the third row end below the canvas.
\<close>

lemma third_row_leaves_canvas:
  "photo_y (drawPhoto 4 fig img r) + photoHeight > canvasHeight"
  by (simp add: drawPhoto_def Let_def photoHeight_def photoWidth_def cellWidth_def
      cellHeight_def contentHeight_def canvasWidth_def canvasHeight_def contentTopMargin_def
      grid_padding_def grid_cols_def grid_rows_def)

lemma stacked_cards_share_a_point:
  assumes below: "j = index + 2"
  shows "overlapping (drawPhoto index fig img r) (drawPhoto j fig' img' r')"
proof -
  let ?p = "drawPhoto index fig img r" and ?q = "drawPhoto j fig' img' r'"
  let ?pt = "(photo_x ?p + photoWidth / 2,
              photo_y ?p + photoHeight / 2 + (grid_padding + cellHeight) / 2)"
  have col: "j mod grid_cols = index mod grid_cols"
    and row: "j div grid_cols = Suc (index div grid_cols)"
    by (simp_all add: grid_cols_def below)
  have x: "photo_x ?q = photo_x ?p"
    by (simp add: drawPhoto_def Let_def col)
  have y: "photo_y ?q = photo_y ?p + (grid_padding + cellHeight)"
    by (simp add: drawPhoto_def Let_def row algebra_simps)
  have pitch: "(grid_padding + cellHeight) / 2 \<le> photoWidth / 2" "0 \<le> grid_padding + cellHeight"
    by (simp_all add: photoWidth_def cellWidth_def cellHeight_def contentHeight_def
        canvasWidth_def canvasHeight_def contentTopMargin_def grid_padding_def grid_cols_def
        grid_rows_def)
  have "covers ?p ?pt"
    using pitch by (intro covers_on_axis) simp_all
  moreover have "covers ?q ?pt"
  proof (rule covers_on_axis)
    show "fst ?pt = photo_x ?q + photoWidth / 2"
      by (simp add: x)
    have "snd ?pt - (photo_y ?q + photoHeight / 2) = - ((grid_padding + cellHeight) / 2)"
      unfolding y snd_conv by argo
    then have "\<bar>snd ?pt - (photo_y ?q + photoHeight / 2)\<bar> = (grid_padding + cellHeight) / 2"
      using pitch(2) by (simp only: abs_minus) simp
    then show "\<bar>snd ?pt - (photo_y ?q + photoHeight / 2)\<bar> \<le> photoWidth / 2"
      using pitch(1) by (simp only:)
  qed
  ultimately show ?thesis
    unfolding overlapping_def by blast
qed

text \<open>
  Claim C4. The page for the five archetypes, every picture loading, holds five photos,
  but they are not free of overlap: whatever \<open>Math.random\<close> returns for the rotations,
  the point \<open>(645, 1739)\<close> lies on the first card and on the third, and each card
  shares a point with the card below it in its column. The cards are
  \<open>photoHeight = 1226.25\<close> high, while a row begins every
  \<open>grid_padding + cellHeight\<close>, about 952.67, below the one before.
\<close>

theorem stacked_cards_overlap:
  "\<exists>photos.
     createLookbookPage True (\<lambda>src. Inr \<lparr>naturalWidth = 1024, naturalHeight = 1024\<rparr>) random
       [(''Kiez-K'' @ [CHR 0xF6] @ ''nig'', ''data:image/png;base64,AA''),
        (''Luden-Larry'', ''data:image/png;base64,BB''),
        (''Gold-Zahn G'' @ [CHR 0xFC] @ ''nther'', ''data:image/png;base64,CC''),
        (''Disco Dieter'', ''data:image/png;base64,DD''),
        (''Porsche-Paul'', ''data:image/png;base64,EE'')] = Inr photos
     \<and> length photos = 5
     \<and> covers (photos ! 0) (645, 1739) \<and> covers (photos ! 2) (645, 1739)
     \<and> overlapping (photos ! 0) (photos ! 2)
     \<and> overlapping (photos ! 1) (photos ! 3)
     \<and> overlapping (photos ! 2) (photos ! 4)"
proof -
  let ?load = "\<lambda>src :: string. Inr \<lparr>naturalWidth = 1024, naturalHeight = 1024\<rparr> :: thrown + HTMLImageElement"
  let ?input = "[(''Kiez-K'' @ [CHR 0xF6] @ ''nig'', ''data:image/png;base64,AA''),
        (''Luden-Larry'', ''data:image/png;base64,BB''),
        (''Gold-Zahn G'' @ [CHR 0xFC] @ ''nther'', ''data:image/png;base64,CC''),
        (''Disco Dieter'', ''data:image/png;base64,DD''),
        (''Porsche-Paul'', ''data:image/png;base64,EE'')]"
  have "\<exists>photos. createLookbookPage True ?load random ?input = Inr photos"
    by (simp add: createLookbookPage_def)
  then obtain photos where page: "createLookbookPage True ?load random ?input = Inr photos" ..
  have len: "length photos = 5"
    using createLookbookPage_photos(1)[OF page] by simp
  have drawn: "\<exists>fig img. photos ! i = drawPhoto i fig img (random i)" if "i < 5" for i
    using createLookbookPage_photos(3)[OF page] that len by fastforce
  obtain f0 i0 where p0: "photos ! 0 = drawPhoto 0 f0 i0 (random 0)"
    using drawn[of 0] by auto
  obtain f1 i1 where p1: "photos ! 1 = drawPhoto 1 f1 i1 (random 1)"
    using drawn[of 1] by auto
  obtain f2 i2 where p2: "photos ! 2 = drawPhoto 2 f2 i2 (random 2)"
    using drawn[of 2] by auto
  obtain f3 i3 where p3: "photos ! 3 = drawPhoto 3 f3 i3 (random 3)"
    using drawn[of 3] by auto
  obtain f4 i4 where p4: "photos ! 4 = drawPhoto 4 f4 i4 (random 4)"
    using drawn[of 4] by auto
  have "covers (photos ! 0) (645, 1739)" "covers (photos ! 2) (645, 1739)"
    unfolding p0 p2 by (rule first_card_covers, rule third_card_covers)
  moreover have "overlapping (photos ! 0) (photos ! 2)"
    unfolding p0 p2 by (rule stacked_cards_share_a_point) simp
  moreover have "overlapping (photos ! 1) (photos ! 3)"
    unfolding p1 p3 by (rule stacked_cards_share_a_point) simp
  moreover have "overlapping (photos ! 2) (photos ! 4)"
    unfolding p2 p4 by (rule stacked_cards_share_a_point) simp
  ultimately show ?thesis
    using page len by blast
qed

section \<open>Properties of the lookbook download\<close>

text \<open>
  Started by \<open>handleGenerateClick\<close> and driven by the workers and the cards, the
  application keeps exactly the archetypes as keys of \<open>generatedImages\<close>.
\<close>

lemma initialImages_keys: "map fst initialImages = PIMP_ARCHETYPES"
  by (simp add: initialImages_def PIMP_ARCHETYPES_def)

lemma keys_inv_initial: "set stale \<subseteq> set PIMP_ARCHETYPES \<Longrightarrow> keys_inv (initialApp stale)"
  by (simp add: keys_inv_def initialApp_def initialRun_def inFlight_def initialImages_keys
      concurrencyLimit_def numeral_2_eq_2)

lemma update_known_key: "k \<in> set (map fst al) \<Longrightarrow> map fst (AList.update k v al) = map fst al"
  by (simp add: update_keys)

lemma keys_inv_loop:
  assumes inv: "keys_inv s" and step: "run_step (Loop w) (run s) = Some r"
  shows "keys_inv (s\<lparr>run := r\<rparr>)"
proof -
  from step have w: "w < length (workers (run s))" and head: "workers (run s) ! w = AtLoopHead"
    by (auto split: if_splits)
  have images: "generatedImages r = generatedImages (run s)"
    using pickup_keeps_statuses[OF step] by simp
  show ?thesis
  proof (cases "pimpQueue (run s)")
    case Nil
    with step w head have r: "r = (run s)\<lparr>workers := (workers (run s))[w := Finished]\<rparr>"
      by simp
    have "awaited ((workers (run s))[w := Finished]) = awaited (workers (run s))"
      using w head by (simp add: awaited_leave)
    with inv show ?thesis
      by (simp add: r keys_inv_def inFlight_def)
  next
    case (Cons pimp rest)
    show ?thesis
    proof (cases "pimp = []")
      case True
      with step w head Cons have r: "r = (run s)\<lparr>pimpQueue := rest\<rparr>"
        by simp
      from inv Cons show ?thesis
        by (simp add: r keys_inv_def inFlight_def)
    next
      case False
      with step w head Cons have r:
        "r = (run s)\<lparr>pimpQueue := rest, workers := (workers (run s))[w := Awaiting pimp],
                      dispatched := dispatched (run s) @ [pimp]\<rparr>"
        by simp
      have "mset (awaited ((workers (run s))[w := Awaiting pimp])) =
            add_mset pimp (mset (awaited (workers (run s))))"
        using w head by (simp add: awaited_pick_up)
      then have "set (awaited ((workers (run s))[w := Awaiting pimp])) =
                 insert pimp (set (awaited (workers (run s))))"
        by (metis set_mset_add_mset_insert set_mset_mset)
      with inv Cons show ?thesis
        by (simp add: r keys_inv_def inFlight_def)
    qed
  qed
qed

lemma keys_inv_settle:
  assumes inv: "keys_inv s" and step: "run_step (Settle w res) (run s) = Some r"
  shows "keys_inv (s\<lparr>run := r\<rparr>)"
proof -
  from step obtain pimp where w: "w < length (workers (run s))"
    and waits: "workers (run s) ! w = Awaiting pimp"
    by (auto split: if_splits worker.splits)
  with step have r:
    "r = (run s)\<lparr>generatedImages := AList.update pimp (entryFor res) (generatedImages (run s)),
                  workers := (workers (run s))[w := AtLoopHead],
                  outcomes := outcomes (run s) @ [(pimp, res)]\<rparr>"
    by (simp add: processPimp_records)
  have "mset (awaited (workers (run s))) =
        add_mset pimp (mset (awaited ((workers (run s))[w := AtLoopHead])))"
    using w waits by (simp add: awaited_settle)
  then have aw: "set (awaited (workers (run s))) =
                 insert pimp (set (awaited ((workers (run s))[w := AtLoopHead])))"
    by (metis set_mset_add_mset_insert set_mset_mset)
  then have "pimp \<in> set (map fst (generatedImages (run s)))"
    using inv by (auto simp: keys_inv_def inFlight_def)
  then have "map fst (AList.update pimp (entryFor res) (generatedImages (run s))) =
             map fst (generatedImages (run s))"
    by (rule update_known_key)
  with inv aw show ?thesis
    by (auto simp: r keys_inv_def inFlight_def)
qed

lemma keys_inv_step:
  assumes inv: "keys_inv s" and card: "fromCard e" and step: "app_step e s = Some s'"
  shows "keys_inv s'"
proof (cases e)
  case (RunEvent re)
  with inv step show ?thesis
    by (cases re) (auto split: option.splits intro: keys_inv_loop keys_inv_settle)
next
  case Render
  with inv step show ?thesis
    by (auto simp: keys_inv_def inFlight_def)
next
  case (Regenerate pimp)
  with card have "pimp \<in> set (map fst (generatedImages (run s)))"
    using inv by (simp add: keys_inv_def)
  then have "map fst (AList.update pimp pendingImage (generatedImages (run s))) =
             map fst (generatedImages (run s))"
    by (rule update_known_key)
  with inv step card Regenerate show ?thesis
    by (cases "statusOf (rendered s) pimp = Some Pending")
       (auto simp: keys_inv_def inFlight_def handleRegeneratePimp_def)
next
  case (RegenerateSettle pimp res)
  with step have mem: "pimp \<in> set (regenerating s)"
    and s': "s' = regenerateSettled pimp res s"
    by (auto split: if_splits)
  then have "pimp \<in> set (map fst (generatedImages (run s)))"
    using inv by (auto simp: keys_inv_def inFlight_def)
  then have "map fst (AList.update pimp (entryFor res) (generatedImages (run s))) =
             map fst (generatedImages (run s))"
    by (rule update_known_key)
  moreover have "set (remove1 pimp (regenerating s)) \<subseteq> set (regenerating s)"
    by (rule set_remove1_subset)
  ultimately show ?thesis
    using inv by (auto simp: s' keys_inv_def inFlight_def regenerateSettled_def)
qed

lemma keys_inv_exec:
  "keys_inv s \<Longrightarrow> list_all fromCard es \<Longrightarrow> app_exec es s = Some s' \<Longrightarrow> keys_inv s'"
proof (induction es arbitrary: s)
  case Nil
  then show ?case by simp
next
  case (Cons e es)
  then show ?case
    by (auto split: option.splits dest: keys_inv_step)
qed

lemma download_reads_archetype_entries:
  assumes "app_exec evs (initialApp stale) = Some s" and "list_all fromCard evs"
    and "set stale \<subseteq> set PIMP_ARCHETYPES"
  shows "distinct (map fst (generatedImages (run s)))"
    and "set (map fst (generatedImages (run s))) \<subseteq> set PIMP_ARCHETYPES"
proof -
  have "keys_inv s"
    using keys_inv_initial[OF assms(3)] assms(2,1) by (rule keys_inv_exec)
  then have "map fst (generatedImages (run s)) = PIMP_ARCHETYPES"
    by (simp add: keys_inv_def)
  then show "distinct (map fst (generatedImages (run s)))"
    and "set (map fst (generatedImages (run s))) \<subseteq> set PIMP_ARCHETYPES"
    using archetypes_distinct by simp_all
qed

lemma imageDataOf_Nil: "imageDataOf [] = []"
  by (simp add: imageDataOf_def)

lemma imageDataOf_Cons:
  "imageDataOf ((pimp, generated) # imgs) =
     (case url generated of
        None \<Rightarrow> []
      | Some u \<Rightarrow> if status generated = Done \<and> u \<noteq> [] then [(pimp, u)] else [])
     @ imageDataOf imgs"
  by (simp add: imageDataOf_def)

lemma imageDataOf_entry:
  "(pimp, u) \<in> set (imageDataOf imgs) \<Longrightarrow>
   \<exists>generated. (pimp, generated) \<in> set imgs \<and> status generated = Done \<and> url generated = Some u \<and> u \<noteq> []"
  by (auto simp: imageDataOf_def split: option.splits if_splits)

lemma imageDataOf_keys: "set (map fst (imageDataOf imgs)) \<subseteq> set (map fst imgs)"
proof
  fix pimp
  assume "pimp \<in> set (map fst (imageDataOf imgs))"
  then obtain u where "(pimp, u) \<in> set (imageDataOf imgs)"
    by auto
  then obtain generated where "(pimp, generated) \<in> set imgs"
    using imageDataOf_entry by blast
  then show "pimp \<in> set (map fst imgs)"
    by force
qed

lemma imageDataOf_distinct:
  "distinct (map fst imgs) \<Longrightarrow> distinct (map fst (imageDataOf imgs))"
proof (induction imgs)
  case Nil
  then show ?case by (simp add: imageDataOf_Nil)
next
  case (Cons entry imgs)
  obtain pimp generated where entry: "entry = (pimp, generated)"
    by (cases entry)
  have "pimp \<notin> set (map fst (imageDataOf imgs))"
    using Cons.prems imageDataOf_keys[of imgs] by (auto simp: entry)
  with Cons show ?case
    by (auto simp: entry imageDataOf_Cons split: option.splits)
qed

lemma imageDataOf_done:
  assumes "distinct (map fst imgs)" and "pimp \<in> set (map fst (imageDataOf imgs))"
  shows "statusOf imgs pimp = Some Done"
proof -
  from assms(2) obtain u where "(pimp, u) \<in> set (imageDataOf imgs)"
    by auto
  then obtain generated where "(pimp, generated) \<in> set imgs" and "status generated = Done"
    using imageDataOf_entry by blast
  with assms(1) show ?thesis
    by (simp add: statusOf_def)
qed

lemma too_few_when_one_is_missing:
  assumes keys: "distinct (map fst imgs)" "set (map fst imgs) \<subseteq> set PIMP_ARCHETYPES"
    and pimp: "pimp \<in> set PIMP_ARCHETYPES" "statusOf imgs pimp \<noteq> Some Done"
  shows "length (imageDataOf imgs) < length PIMP_ARCHETYPES"
proof -
  let ?done = "map fst (imageDataOf imgs)"
  have "pimp \<notin> set ?done"
    using imageDataOf_done[OF keys(1)] pimp(2) by blast
  then have "set ?done \<subseteq> set PIMP_ARCHETYPES - {pimp}"
    using imageDataOf_keys[of imgs] keys(2) by auto
  then have "card (set ?done) \<le> card (set PIMP_ARCHETYPES - {pimp})"
    by (simp add: card_mono)
  also have "\<dots> < card (set PIMP_ARCHETYPES)"
    using pimp(1) by (intro card_Diff1_less) simp_all
  finally have "card (set ?done) < length PIMP_ARCHETYPES"
    using archetypes_distinct by (simp add: distinct_card)
  moreover have "card (set ?done) = length (imageDataOf imgs)"
    using imageDataOf_distinct[OF keys(1)] distinct_card[of ?done] by simp
  ultimately show ?thesis
    by simp
qed

text \<open>
  Claim C5. \<open>generatedImages\<close> holds entries for archetypes only, each key once. If
  some archetype is not \<open>Done\<close>, \<open>handleDownloadLookbook\<close> alerts and makes no page;
  and whenever it does hand a page to the download, every archetype is \<open>Done\<close> and the
  page holds one photo for each of them.
\<close>

theorem lookbook_refused_unless_all_done:
  assumes "distinct (map fst imgs)" and "set (map fst imgs) \<subseteq> set PIMP_ARCHETYPES"
  shows "((\<exists>pimp \<in> set PIMP_ARCHETYPES. statusOf imgs pimp \<noteq> Some Done) \<longrightarrow>
            handleDownloadLookbook ctx loadImage random imgs = AlertWait)
         \<and> (\<forall>lookbook. handleDownloadLookbook ctx loadImage random imgs = Downloaded lookbook \<longrightarrow>
               (\<forall>pimp \<in> set PIMP_ARCHETYPES. statusOf imgs pimp = Some Done)
               \<and> length lookbook = length PIMP_ARCHETYPES
               \<and> set (map figure lookbook) = set PIMP_ARCHETYPES)"
proof (intro conjI impI allI)
  assume "\<exists>pimp \<in> set PIMP_ARCHETYPES. statusOf imgs pimp \<noteq> Some Done"
  then show "handleDownloadLookbook ctx loadImage random imgs = AlertWait"
    using too_few_when_one_is_missing[OF assms] by (auto simp: handleDownloadLookbook_def)
next
  fix lookbook
  assume down: "handleDownloadLookbook ctx loadImage random imgs = Downloaded lookbook"
  then have enough: "\<not> length (imageDataOf imgs) < length PIMP_ARCHETYPES"
    and page: "createLookbookPage ctx loadImage random (imageDataOf imgs) = Inr lookbook"
    by (auto simp: handleDownloadLookbook_def Let_def split: if_splits sum.splits)
  show all: "\<forall>pimp \<in> set PIMP_ARCHETYPES. statusOf imgs pimp = Some Done"
    using too_few_when_one_is_missing[OF assms] enough by blast
  let ?done = "map fst (imageDataOf imgs)"
  have sub: "set ?done \<subseteq> set PIMP_ARCHETYPES"
    using imageDataOf_keys[of imgs] assms(2) by auto
  have "card (set PIMP_ARCHETYPES) \<le> card (set ?done)"
    using enough imageDataOf_distinct[OF assms(1)] distinct_card[of ?done]
      archetypes_distinct distinct_card[of PIMP_ARCHETYPES] by simp
  with sub have same: "set ?done = set PIMP_ARCHETYPES"
    by (simp add: card_seteq)
  then have "length (imageDataOf imgs) = length PIMP_ARCHETYPES"
    using imageDataOf_distinct[OF assms(1)] distinct_card[of ?done]
      archetypes_distinct distinct_card[of PIMP_ARCHETYPES] by simp
  then show "length lookbook = length PIMP_ARCHETYPES"
    using createLookbookPage_photos(1)[OF page] by simp
  show "set (map figure lookbook) = set PIMP_ARCHETYPES"
    using createLookbookPage_photos(2)[OF page] same by simp
qed

theorem lookbook_refused_unless_all_done_witness:
  "handleDownloadLookbook True (\<lambda>src. Inr \<lparr>naturalWidth = 1024, naturalHeight = 1024\<rparr>) (\<lambda>i. 1 / 2)
     [(''Kiez-K'' @ [CHR 0xF6] @ ''nig'', doneImage ''data:image/png;base64,AA''),
      (''Luden-Larry'', errorImage ''The AI model failed to generate an image. Details: blocked''),
      (''Gold-Zahn G'' @ [CHR 0xFC] @ ''nther'', doneImage ''data:image/png;base64,BB''),
      (''Disco Dieter'', doneImage ''data:image/png;base64,CC''),
      (''Porsche-Paul'', doneImage ''data:image/png;base64,DD'')] = AlertWait
   \<and> statusOf
        [(''Kiez-K'' @ [CHR 0xF6] @ ''nig'', doneImage ''data:image/png;base64,AA''),
         (''Luden-Larry'', errorImage ''The AI model failed to generate an image. Details: blocked''),
         (''Gold-Zahn G'' @ [CHR 0xFC] @ ''nther'', doneImage ''data:image/png;base64,BB''),
         (''Disco Dieter'', doneImage ''data:image/png;base64,CC''),
         (''Porsche-Paul'', doneImage ''data:image/png;base64,DD'')] ''Luden-Larry'' = Some Error"
  using lookbook_refused_unless_all_done
    [of "[(''Kiez-K'' @ [CHR 0xF6] @ ''nig'', doneImage ''data:image/png;base64,AA''),
      (''Luden-Larry'', errorImage ''The AI model failed to generate an image. Details: blocked''),
      (''Gold-Zahn G'' @ [CHR 0xFC] @ ''nther'', doneImage ''data:image/png;base64,BB''),
      (''Disco Dieter'', doneImage ''data:image/png;base64,CC''),
      (''Porsche-Paul'', doneImage ''data:image/png;base64,DD'')]"
     True "\<lambda>src. Inr \<lparr>naturalWidth = 1024, naturalHeight = 1024\<rparr>" "\<lambda>i. 1 / 2"]
  by (simp add: PIMP_ARCHETYPES_def statusOf_def errorImage_def doneImage_def)

end
